theory Spec2Isabelle
  imports Main "HOL-Library.FSet"
begin

section \<open>Symbols, rules and grammars\<close>

text \<open>
  Symbols are Python strings (module \<open>symbols.py\<close>). A rule is a pair of a head and a
  body (a tuple of symbols, the empty tuple for an epsilon rule); a grammar is a list of
  rules. Python sets are finite, so they are finite sets here; a dict is a partial map.
\<close>

type_synonym symbol = string

type_synonym rule = "symbol \<times> symbol list"

type_synonym grammar = "rule list"

type_synonym symdict = "symbol \<rightharpoonup> symbol fset"

datatype error = IndexError | KeyError | SyntaxError

definition EOF :: symbol where "EOF = ''EOF''"

definition LP :: symbol where "LP = ''LP''"

definition RP :: symbol where "RP = ''RP''"

definition ASSIGN :: symbol where "ASSIGN = ''ASSIGN''"

definition PLUS :: symbol where "PLUS = ''PLUS''"

definition IF :: symbol where "IF = ''IF''"

definition ELSE :: symbol where "ELSE = ''ELSE''"

definition ID :: symbol where "ID = ''ID''"

definition S :: symbol where "S = ''S''"

definition E :: symbol where "E = ''E''"

definition T :: symbol where "T = ''T''"

definition EP :: symbol where "EP = ''EP''"

definition LB :: symbol where "LB = ''LB''"

definition RB :: symbol where "RB = ''RB''"

definition LS :: symbol where "LS = ''LS''"

definition RS :: symbol where "RS = ''RS''"

definition COMMA :: symbol where "COMMA = ''COMMA''"

definition COLON :: symbol where "COLON = ''COLON''"

definition INT_sym :: symbol where "INT_sym = ''INT''"

definition STRING :: symbol where "STRING = ''STRING''"

definition obj :: symbol where "obj = ''obj''"

definition members :: symbol where "members = ''members''"

definition keyvalue :: symbol where "keyvalue = ''keyvalue''"

definition value_nt :: symbol where "value_nt = ''value''"

definition obj_right :: symbol where "obj_right = ''obj_right''"

definition members_right :: symbol where "members_right = ''members_right''"

definition obj_right_set :: symbol where "obj_right_set = ''obj_right_set''"

definition obj_right_arr :: symbol where "obj_right_arr = ''obj_right_arr''"

definition members_set :: symbol where "members_set = ''members_set''"

definition members_arr :: symbol where "members_arr = ''members_arr''"

definition members_right_set :: symbol where "members_right_set = ''members_right_set''"

definition members_right_arr :: symbol where "members_right_arr = ''members_right_arr''"

lemmas symbol_defs =
  EOF_def LP_def RP_def ASSIGN_def PLUS_def IF_def ELSE_def ID_def S_def E_def T_def EP_def
  LB_def RB_def LS_def RS_def COMMA_def COLON_def INT_sym_def STRING_def obj_def members_def
  keyvalue_def value_nt_def obj_right_def members_right_def obj_right_set_def
  obj_right_arr_def members_set_def members_arr_def members_right_set_def
  members_right_arr_def

text \<open>A \<open>for\<close> loop whose body may raise: the first error ends the loop.\<close>

fun foldE :: "('a \<Rightarrow> 's \<Rightarrow> error + 's) \<Rightarrow> 'a list \<Rightarrow> 's \<Rightarrow> error + 's" where
  "foldE f [] s = Inr s"
| "foldE f (x # xs) s = (case f x s of Inl e \<Rightarrow> Inl e | Inr s' \<Rightarrow> foldE f xs s')"

section \<open>The analyzer (grammar.py)\<close>

text \<open>\<open>find_terminals_and_nonterminals\<close>: heads are nonterminals, every other symbol of a
  body is a terminal.\<close>

definition find_terminals_and_nonterminals :: "grammar \<Rightarrow> symbol fset \<times> symbol fset" where
  "find_terminals_and_nonterminals grammar =
     (let symbols = fset_of_list (concat (map snd grammar));
          nonterminals = fset_of_list (map fst grammar)
      in (symbols |-| nonterminals, nonterminals))"

fun is_nullable :: "symbol list \<Rightarrow> symbol fset \<Rightarrow> bool" where
  "is_nullable [] nullables = True"
| "is_nullable (token # token_stream) nullables =
     (if token |\<notin>| nullables then False else is_nullable token_stream nullables)"

subsection \<open>calculate_nullable\<close>

text \<open>The first loop: the heads of the epsilon rules.\<close>

fun nullable_init :: "grammar \<Rightarrow> symbol fset \<Rightarrow> symbol fset" where
  "nullable_init [] nullable = nullable"
| "nullable_init ((head, body) # rs) nullable =
     (if body = [] then nullable_init rs (finsert head nullable)
      else nullable_init rs nullable)"

text \<open>One run of the \<open>for\<close> loop inside \<open>while changing\<close>; the state is the set and the
  flag \<open>changing\<close>.\<close>

fun nullable_pass :: "grammar \<Rightarrow> symbol fset \<times> bool \<Rightarrow> symbol fset \<times> bool" where
  "nullable_pass [] st = st"
| "nullable_pass ((head, body) # rs) (nullable, changing) =
     (if fset_of_list body |\<subseteq>| nullable \<and> head |\<notin>| nullable
      then nullable_pass rs (finsert head nullable, True)
      else nullable_pass rs (nullable, changing))"

function nullable_loop :: "grammar \<Rightarrow> symbol fset \<Rightarrow> symbol fset" where
  "nullable_loop g nullable =
     (case nullable_pass g (nullable, False) of
        (nullable', changing) \<Rightarrow> if changing then nullable_loop g nullable' else nullable')"
  by pat_completeness auto

definition calculate_nullable :: "symbol fset \<Rightarrow> symbol fset \<Rightarrow> grammar \<Rightarrow> symbol fset" where
  "calculate_nullable terminals nonterminals grammar =
     nullable_loop grammar (nullable_init grammar {||})"

subsection \<open>calculate_first\<close>

text \<open>The innermost loops of \<open>calculate_first\<close> and \<open>calculate_follow\<close>:
  \<^verbatim>\<open>for item in items: if item not in d[key]: d[key].add(item); changing = True\<close>.
  \<open>d[key]\<close> is looked up only when \<open>items\<close> has an element.\<close>

definition add_items ::
  "symbol \<Rightarrow> symbol fset \<Rightarrow> symdict \<times> bool \<Rightarrow> error + (symdict \<times> bool)" where
  "add_items key items st =
     (case st of (d, changing) \<Rightarrow>
        if items = {||} then Inr (d, changing)
        else (case d key of
                None \<Rightarrow> Inl KeyError
              | Some s \<Rightarrow>
                  if items |\<subseteq>| s then Inr (d, changing)
                  else Inr (d(key \<mapsto> s |\<union>| items), True)))"

definition first_step ::
  "symbol fset \<Rightarrow> symbol \<Rightarrow> symbol list \<Rightarrow> nat \<Rightarrow> symdict \<times> bool \<Rightarrow> error + (symdict \<times> bool)"
  where
  "first_step nullable head body i st =
     (if is_nullable (take i body) nullable
      then (case fst st (body ! i) of
              None \<Rightarrow> Inl KeyError
            | Some items \<Rightarrow> add_items head items st)
      else Inr st)"

definition first_rule ::
  "symbol fset \<Rightarrow> rule \<Rightarrow> symdict \<times> bool \<Rightarrow> error + (symdict \<times> bool)" where
  "first_rule nullable r st =
     (case r of (head, body) \<Rightarrow> foldE (first_step nullable head body) [0..<length body] st)"

definition first_pass ::
  "grammar \<Rightarrow> symbol fset \<Rightarrow> symdict \<times> bool \<Rightarrow> error + (symdict \<times> bool)" where
  "first_pass g nullable st = foldE (first_rule nullable) g st"

function first_loop :: "grammar \<Rightarrow> symbol fset \<Rightarrow> symdict \<Rightarrow> error + symdict" where
  "first_loop g nullable first =
     (case first_pass g nullable (first, False) of
        Inl e \<Rightarrow> Inl e
      | Inr (first', changing) \<Rightarrow>
          if changing then first_loop g nullable first' else Inr first')"
  by pat_completeness auto

definition calculate_first ::
  "symbol fset \<Rightarrow> symbol fset \<Rightarrow> grammar \<Rightarrow> symbol fset \<Rightarrow> error + symdict" where
  "calculate_first terminals nonterminals grammar nullable =
     first_loop grammar nullable
       (\<lambda>x. if x |\<in>| nonterminals then Some {||}
            else if x |\<in>| terminals then Some {|x|} else None)"

subsection \<open>calculate_follow\<close>

text \<open>The first inner loop of a pass: \<open>body[i]\<close> a nonterminal with a nullable suffix
  receives \<open>follow[head]\<close>.\<close>

definition follow_step1 ::
  "symbol fset \<Rightarrow> symbol fset \<Rightarrow> symbol \<Rightarrow> symbol list \<Rightarrow> nat \<Rightarrow> symdict \<times> bool
     \<Rightarrow> error + (symdict \<times> bool)" where
  "follow_step1 terminals nullable head body i st =
     (if body ! i |\<in>| terminals then Inr st
      else if is_nullable (drop (i + 1) body) nullable
      then (case fst st head of
              None \<Rightarrow> Inl KeyError
            | Some items \<Rightarrow> add_items (body ! i) items st)
      else Inr st)"

text \<open>The second inner loop: \<open>body[i]\<close> receives \<open>first[body[j]]\<close> when \<open>body[i+1:j]\<close> is
  nullable.\<close>

definition follow_step2 ::
  "symbol fset \<Rightarrow> symdict \<Rightarrow> symbol list \<Rightarrow> nat \<Rightarrow> nat \<Rightarrow> symdict \<times> bool
     \<Rightarrow> error + (symdict \<times> bool)" where
  "follow_step2 nullable first body i j st =
     (if is_nullable (take (j - (i + 1)) (drop (i + 1) body)) nullable
      then (case first (body ! j) of
              None \<Rightarrow> Inl KeyError
            | Some items \<Rightarrow> add_items (body ! i) items st)
      else Inr st)"

definition follow_inner ::
  "symbol fset \<Rightarrow> symbol fset \<Rightarrow> symdict \<Rightarrow> symbol list \<Rightarrow> nat \<Rightarrow> symdict \<times> bool
     \<Rightarrow> error + (symdict \<times> bool)" where
  "follow_inner terminals nullable first body i st =
     (if body ! i |\<in>| terminals then Inr st
      else foldE (follow_step2 nullable first body i) [i + 1..<length body] st)"

definition follow_rule ::
  "symbol fset \<Rightarrow> symbol fset \<Rightarrow> symdict \<Rightarrow> rule \<Rightarrow> symdict \<times> bool
     \<Rightarrow> error + (symdict \<times> bool)" where
  "follow_rule terminals nullable first r st =
     (case r of (head, body) \<Rightarrow>
        (case foldE (follow_step1 terminals nullable head body) [0..<length body] st of
           Inl e \<Rightarrow> Inl e
         | Inr st' \<Rightarrow>
             foldE (follow_inner terminals nullable first body) [0..<length body - 1] st'))"

definition follow_pass ::
  "grammar \<Rightarrow> symbol fset \<Rightarrow> symbol fset \<Rightarrow> symdict \<Rightarrow> symdict \<times> bool
     \<Rightarrow> error + (symdict \<times> bool)" where
  "follow_pass g terminals nullable first st =
     foldE (follow_rule terminals nullable first) g st"

function follow_loop ::
  "grammar \<Rightarrow> symbol fset \<Rightarrow> symbol fset \<Rightarrow> symdict \<Rightarrow> symdict \<Rightarrow> error + symdict" where
  "follow_loop g terminals nullable first follow =
     (case follow_pass g terminals nullable first (follow, False) of
        Inl e \<Rightarrow> Inl e
      | Inr (follow', changing) \<Rightarrow>
          if changing then follow_loop g terminals nullable first follow' else Inr follow')"
  by pat_completeness auto

text \<open>\<open>grammar[0][0]\<close> raises IndexError on the empty list.\<close>

definition calculate_follow ::
  "symbol fset \<Rightarrow> symbol fset \<Rightarrow> grammar \<Rightarrow> symbol fset \<Rightarrow> symdict \<Rightarrow> error + symdict" where
  "calculate_follow terminals nonterminals grammar nullable first =
     (case grammar of
        [] \<Rightarrow> Inl IndexError
      | (start_nonterminal, _) # _ \<Rightarrow>
          follow_loop grammar terminals nullable first
            ((\<lambda>a. if a |\<in>| nonterminals then Some {||} else None)
               (start_nonterminal \<mapsto> {|EOF|})))"

subsection \<open>calculate_select\<close>

text \<open>The walk over the body: the FIRST set of each item is added, and the walk breaks
  after the first item that is not nullable.\<close>

fun select_walk ::
  "symdict \<Rightarrow> symbol fset \<Rightarrow> symbol list \<Rightarrow> symbol fset \<Rightarrow> error + symbol fset" where
  "select_walk first nullable [] sel = Inr sel"
| "select_walk first nullable (item # rest) sel =
     (case first item of
        None \<Rightarrow> Inl KeyError
      | Some xs \<Rightarrow>
          if \<not> is_nullable [item] nullable then Inr (sel |\<union>| xs)
          else select_walk first nullable rest (sel |\<union>| xs))"

definition select_rule ::
  "symbol fset \<Rightarrow> symdict \<Rightarrow> symdict \<Rightarrow> rule \<Rightarrow> (rule \<rightharpoonup> symbol fset)
     \<Rightarrow> error + (rule \<rightharpoonup> symbol fset)" where
  "select_rule nullable first follow r select =
     (case r of (head, body) \<Rightarrow>
        (case select_walk first nullable body {||} of
           Inl e \<Rightarrow> Inl e
         | Inr sel \<Rightarrow>
             if is_nullable body nullable
             then (case follow head of
                     None \<Rightarrow> Inl KeyError
                   | Some xs \<Rightarrow> Inr (select((head, body) \<mapsto> sel |\<union>| xs)))
             else Inr (select((head, body) \<mapsto> sel))))"

definition calculate_select ::
  "symbol fset \<Rightarrow> symbol fset \<Rightarrow> grammar \<Rightarrow> symbol fset \<Rightarrow> symdict \<Rightarrow> symdict
     \<Rightarrow> error + (rule \<rightharpoonup> symbol fset)" where
  "calculate_select terminals nonterminals grammar nullable first follow =
     foldE (select_rule nullable first follow) grammar Map.empty"

subsection \<open>is_LL1\<close>

text \<open>The body of the double loop over the index pairs \<open>i < j\<close>; \<open>select\<close> is looked up
  only when the heads agree.\<close>

definition ll1_step ::
  "(rule \<rightharpoonup> symbol fset) \<Rightarrow> grammar \<Rightarrow> nat \<Rightarrow> nat \<Rightarrow> bool \<Rightarrow> error + bool" where
  "ll1_step select grammar i j ll1 =
     (let r1 = grammar ! i; r2 = grammar ! j
      in if fst r1 = fst r2
         then (case select r1 of
                 None \<Rightarrow> Inl KeyError
               | Some s1 \<Rightarrow>
                   (case select r2 of
                      None \<Rightarrow> Inl KeyError
                    | Some s2 \<Rightarrow> Inr (if s1 |\<inter>| s2 \<noteq> {||} then False else ll1)))
         else Inr ll1)"

definition ll1_scan :: "(rule \<rightharpoonup> symbol fset) \<Rightarrow> grammar \<Rightarrow> error + bool" where
  "ll1_scan select grammar =
     foldE (\<lambda>i. foldE (ll1_step select grammar i) [i + 1..<length grammar])
       [0..<length grammar] True"

text \<open>The first five lines of \<open>is_LL1\<close> (and of \<open>analyze_grammar\<close>): the SELECT mapping of
  a grammar, each analysis fed with the results of the ones before.\<close>

definition grammar_select :: "grammar \<Rightarrow> error + (rule \<rightharpoonup> symbol fset)" where
  "grammar_select grammar =
     (case find_terminals_and_nonterminals grammar of
        (terminals, nonterminals) \<Rightarrow>
          (let nullable = calculate_nullable terminals nonterminals grammar
           in case calculate_first terminals nonterminals grammar nullable of
                Inl e \<Rightarrow> Inl e
              | Inr first \<Rightarrow>
                  (case calculate_follow terminals nonterminals grammar nullable first of
                     Inl e \<Rightarrow> Inl e
                   | Inr follow \<Rightarrow>
                       calculate_select terminals nonterminals grammar nullable
                         first follow)))"

definition is_LL1 :: "grammar \<Rightarrow> error + bool" where
  "is_LL1 grammar =
     (case grammar_select grammar of
        Inl e \<Rightarrow> Inl e
      | Inr select \<Rightarrow> ll1_scan select grammar)"

subsection \<open>The grammars of the module\<close>

definition grammar_recitation :: grammar where
  "grammar_recitation =
    [(S, [ID, ASSIGN, E]),
     (S, [IF, LP, E, RP, S, ELSE, S]),
     (E, [T, EP]),
     (T, [ID]),
     (T, [LP, E, RP]),
     (EP, []),
     (EP, [PLUS, E])]"

definition grammar_json_4a :: grammar where
  "grammar_json_4a =
    [(obj, [LB, RB]),
     (obj, [LB, members, RB]),
     (members, [keyvalue]),
     (members, [members, COMMA, members]),
     (keyvalue, [STRING, COLON, value_nt]),
     (value_nt, [STRING]),
     (value_nt, [INT_sym]),
     (value_nt, [obj])]"

definition grammar_json_4b :: grammar where
  "grammar_json_4b =
    [(obj, [LB, obj_right]),
     (obj_right, [RB]),
     (obj_right, [members, RB]),
     (members, [keyvalue, members_right]),
     (members_right, [COMMA, members]),
     (members_right, []),
     (keyvalue, [STRING, COLON, value_nt]),
     (value_nt, [STRING]),
     (value_nt, [INT_sym]),
     (value_nt, [obj])]"

text \<open>\<open>grammar_json_6\<close> as \<open>grammar.py\<close> defines it.\<close>

definition grammar_json_6 :: grammar where
  "grammar_json_6 =
    [(obj, [LB, obj_right_set]),
     (obj_right_set, [RB]),
     (obj_right_set, [members_set, RB]),
     (obj, [LS, obj_right_arr]),
     (obj_right_arr, [RS]),
     (obj_right_arr, [members_arr, RS]),
     (members_set, [keyvalue, members_right_set]),
     (members_right_set, [COMMA, members_set]),
     (members_right_set, []),
     (members_arr, [keyvalue, members_right_arr]),
     (members_right_arr, [COMMA, members_arr]),
     (members_right_arr, []),
     (keyvalue, [STRING, COLON, value_nt]),
     (value_nt, [STRING]),
     (value_nt, [INT_sym]),
     (value_nt, [obj])]"

section \<open>The parser (parser.py)\<close>

text \<open>The state of a \<open>Parser\<close> object: the token list, the position and the current
  terminal. Attached values are the strings the lexer yields.\<close>

record parser =
  tokens :: "(symbol \<times> string) list"
  pos :: int
  t :: symbol

text \<open>Python list indexing: a negative index counts from the end, an index out of range
  raises IndexError.\<close>

definition py_index :: "'a list \<Rightarrow> int \<Rightarrow> error + 'a" where
  "py_index xs i =
     (if 0 \<le> i \<and> i < int (length xs) then Inr (xs ! nat i)
      else if i < 0 \<and> - int (length xs) \<le> i then Inr (xs ! nat (int (length xs) + i))
      else Inl IndexError)"

text \<open>\<open>advance\<close> returns its result (a value or the exception raised) and the state the
  object is left in.\<close>

definition advance :: "parser \<Rightarrow> (error + string) \<times> parser" where
  "advance p =
     (case (if pos p < int (length (tokens p))
            then (case py_index (tokens p) (pos p) of Inl e \<Rightarrow> Inl e | Inr tk \<Rightarrow> Inr (snd tk))
            else Inr EOF) of
        Inl e \<Rightarrow> (Inl e, p)
      | Inr v \<Rightarrow>
          (let p1 = p\<lparr>pos := pos p + 1\<rparr>
           in case (if pos p1 < int (length (tokens p1))
                    then (case py_index (tokens p1) (pos p1) of
                            Inl e \<Rightarrow> Inl e | Inr tk \<Rightarrow> Inr (fst tk))
                    else Inr EOF) of
                Inl e \<Rightarrow> (Inl e, p1)
              | Inr s \<Rightarrow> (Inr v, p1\<lparr>t := s\<rparr>)))"

text \<open>\<open>__init__\<close>: the attribute \<open>t\<close> does not exist before the first \<open>advance\<close>, which
  sets it without reading it; the empty string stands for it here. An exception in
  \<open>__init__\<close> leaves no object.\<close>

definition Parser_init :: "(symbol \<times> string) list \<Rightarrow> error + parser" where
  "Parser_init toks =
     (case advance \<lparr>tokens = toks, pos = - 1, t = []\<rparr> of
        (Inl e, _) \<Rightarrow> Inl e
      | (Inr _, p) \<Rightarrow> Inr p)"

text \<open>On success \<open>match\<close> prints the terminal and the value it returns; the output is not
  part of the model.\<close>

definition match :: "parser \<Rightarrow> symbol \<Rightarrow> (error + string) \<times> parser" where
  "match p terminal = (if t p = terminal then advance p else (Inl SyntaxError, p))"

subsection \<open>JsonParser\<close>

text \<open>A parse tree is a pair of a nonterminal and the tuple of its children; a child is
  the value attached to a matched token or a tree.\<close>

datatype tree = Leaf string | Node symbol "tree list"

fun leaves :: "tree \<Rightarrow> string list" where
  "leaves (Leaf v) = [v]"
| "leaves (Node s cs) = concat (map leaves cs)"

text \<open>The recursive methods take fuel: \<open>None\<close> is the call that has not returned with the
  fuel given; \<open>Some (Inl e)\<close> is an exception that reaches the caller.\<close>

definition run :: "(error + 'a) \<times> parser \<Rightarrow> (error + 'a \<times> parser) option" where
  "run r = (case r of (Inl e, _) \<Rightarrow> Some (Inl e) | (Inr v, p) \<Rightarrow> Some (Inr (v, p)))"

definition bindP ::
  "(error + 'a \<times> parser) option \<Rightarrow> ('a \<Rightarrow> parser \<Rightarrow> (error + 'b \<times> parser) option)
     \<Rightarrow> (error + 'b \<times> parser) option" where
  "bindP m f =
     (case m of
        None \<Rightarrow> None
      | Some (Inl e) \<Rightarrow> Some (Inl e)
      | Some (Inr (v, p)) \<Rightarrow> f v p)"

fun parse_keyvalue :: "nat \<Rightarrow> parser \<Rightarrow> (error + tree \<times> parser) option"
  and parse_obj :: "nat \<Rightarrow> parser \<Rightarrow> (error + tree \<times> parser) option"
  and parse_obj_right_set :: "nat \<Rightarrow> parser \<Rightarrow> (error + tree \<times> parser) option"
  and parse_obj_right_arr :: "nat \<Rightarrow> parser \<Rightarrow> (error + tree \<times> parser) option"
  and parse_members_set :: "nat \<Rightarrow> parser \<Rightarrow> (error + tree \<times> parser) option"
  and parse_members_arr :: "nat \<Rightarrow> parser \<Rightarrow> (error + tree \<times> parser) option"
  and parse_members_right_set :: "nat \<Rightarrow> parser \<Rightarrow> (error + tree \<times> parser) option"
  and parse_members_right_arr :: "nat \<Rightarrow> parser \<Rightarrow> (error + tree \<times> parser) option"
  and parse_value :: "nat \<Rightarrow> parser \<Rightarrow> (error + tree \<times> parser) option"
where
  "parse_keyvalue 0 p = None"
| "parse_keyvalue (Suc n) p =
     (if t p \<in> set [STRING] then
        bindP (run (match p STRING)) (\<lambda>c1 p1.
        bindP (run (match p1 COLON)) (\<lambda>c2 p2.
        bindP (parse_value n p2) (\<lambda>c3 p3.
        Some (Inr (Node keyvalue [Leaf c1, Leaf c2, c3], p3)))))
      else Some (Inl SyntaxError))"
| "parse_obj 0 p = None"
| "parse_obj (Suc n) p =
     (if t p \<in> set [LB] then
        bindP (run (match p LB)) (\<lambda>c1 p1.
        bindP (parse_obj_right_set n p1) (\<lambda>c2 p2.
        Some (Inr (Node obj [Leaf c1, c2], p2))))
      else if t p \<in> set [LS] then
        bindP (run (match p LS)) (\<lambda>c1 p1.
        bindP (parse_obj_right_arr n p1) (\<lambda>c2 p2.
        Some (Inr (Node obj [Leaf c1, c2], p2))))
      else Some (Inl SyntaxError))"
| "parse_obj_right_set 0 p = None"
| "parse_obj_right_set (Suc n) p =
     (if t p \<in> set [RB] then
        bindP (run (match p RB)) (\<lambda>c1 p1.
        Some (Inr (Node obj_right_set [Leaf c1], p1)))
      else if t p \<in> set [STRING] then
        bindP (parse_members_set n p) (\<lambda>c1 p1.
        bindP (run (match p1 RB)) (\<lambda>c2 p2.
        Some (Inr (Node obj_right_set [c1, Leaf c2], p2))))
      else Some (Inl SyntaxError))"
| "parse_obj_right_arr 0 p = None"
| "parse_obj_right_arr (Suc n) p =
     (if t p \<in> set [RS] then
        bindP (run (match p RS)) (\<lambda>c1 p1.
        Some (Inr (Node obj_right_arr [Leaf c1], p1)))
      else if t p \<in> set [STRING, INT_sym, LB, LS] then
        bindP (parse_members_arr n p) (\<lambda>c1 p1.
        bindP (run (match p1 RS)) (\<lambda>c2 p2.
        Some (Inr (Node obj_right_arr [c1, Leaf c2], p2))))
      else Some (Inl SyntaxError))"
| "parse_members_set 0 p = None"
| "parse_members_set (Suc n) p =
     (if t p \<in> set [STRING] then
        bindP (parse_keyvalue n p) (\<lambda>c1 p1.
        bindP (parse_members_right_set n p1) (\<lambda>c2 p2.
        Some (Inr (Node members_set [c1, c2], p2))))
      else Some (Inl SyntaxError))"
| "parse_members_arr 0 p = None"
| "parse_members_arr (Suc n) p =
     (if t p \<in> set [STRING, INT_sym, LB, LS] then
        bindP (parse_value n p) (\<lambda>c1 p1.
        bindP (parse_members_right_arr n p1) (\<lambda>c2 p2.
        Some (Inr (Node members_arr [c1, c2], p2))))
      else Some (Inl SyntaxError))"
| "parse_members_right_set 0 p = None"
| "parse_members_right_set (Suc n) p =
     (if t p \<in> set [COMMA] then
        bindP (run (match p COMMA)) (\<lambda>c1 p1.
        bindP (parse_members_set n p1) (\<lambda>c2 p2.
        Some (Inr (Node members_right_set [Leaf c1, c2], p2))))
      else if t p \<in> set [RB] then Some (Inr (Node members_right_set [], p))
      else Some (Inl SyntaxError))"
| "parse_members_right_arr 0 p = None"
| "parse_members_right_arr (Suc n) p =
     (if t p \<in> set [COMMA] then
        bindP (run (match p COMMA)) (\<lambda>c1 p1.
        bindP (parse_members_arr n p1) (\<lambda>c2 p2.
        Some (Inr (Node members_right_arr [Leaf c1, c2], p2))))
      else if t p \<in> set [RS] then Some (Inr (Node members_right_arr [], p))
      else Some (Inl SyntaxError))"
| "parse_value 0 p = None"
| "parse_value (Suc n) p =
     (if t p \<in> set [STRING, INT_sym] then
        bindP (run (match p (t p))) (\<lambda>c1 p1.
        Some (Inr (Node value_nt [Leaf c1], p1)))
      else if t p \<in> set [LB, LS] then
        bindP (parse_obj n p) (\<lambda>c1 p1.
        Some (Inr (Node value_nt [c1], p1)))
      else Some (Inl SyntaxError))"

text \<open>\<open>JsonParser(tokens).parse()\<close>: the start symbol, then \<open>match(EOF)\<close>.\<close>

definition parse :: "nat \<Rightarrow> parser \<Rightarrow> (error + tree \<times> parser) option" where
  "parse n p =
     bindP (parse_obj n p) (\<lambda>result p1.
     bindP (run (match p1 EOF)) (\<lambda>_ p2.
     Some (Inr (result, p2))))"

definition JsonParser_parse :: "nat \<Rightarrow> (symbol \<times> string) list \<Rightarrow> (error + tree) option" where
  "JsonParser_parse n toks =
     (case Parser_init toks of
        Inl e \<Rightarrow> Some (Inl e)
      | Inr p \<Rightarrow>
          (case parse n p of
             None \<Rightarrow> None
           | Some (Inl e) \<Rightarrow> Some (Inl e)
           | Some (Inr (result, _)) \<Rightarrow> Some (Inr result)))"

section \<open>The notions of the specification\<close>

definition vals :: "symdict \<Rightarrow> symbol \<Rightarrow> symbol set" where
  "vals d k = (case d k of None \<Rightarrow> {} | Some s \<Rightarrow> fset s)"

text \<open>A set is closed under the rules when it has the head of every rule whose body
  symbols all belong to it (every epsilon rule's head, then).\<close>

definition nullable_closed :: "grammar \<Rightarrow> symbol set \<Rightarrow> bool" where
  "nullable_closed g M \<longleftrightarrow> (\<forall>(h, b)\<in>set g. set b \<subseteq> M \<longrightarrow> h \<in> M)"

text \<open>FIRST of a sequence of symbols, in the words of the specification: the union of
  FIRST of each symbol of the maximal nullable prefix, and FIRST of the first symbol that
  is not nullable when there is one.\<close>

definition FIRST_seq :: "symdict \<Rightarrow> symbol fset \<Rightarrow> symbol list \<Rightarrow> symbol set" where
  "FIRST_seq first nullable alpha =
     (\<Union>x\<in>set (takeWhile (\<lambda>x. x |\<in>| nullable) alpha). vals first x) \<union>
     (case dropWhile (\<lambda>x. x |\<in>| nullable) alpha of [] \<Rightarrow> {} | x # _ \<Rightarrow> vals first x)"

text \<open>What the rule \<open>(head, body)\<close> selects on: FIRST of the body, and FOLLOW of the head
  when every symbol of the body is nullable (the empty body included).\<close>

definition SELECT_rule :: "symbol fset \<Rightarrow> symdict \<Rightarrow> symdict \<Rightarrow> rule \<Rightarrow> symbol set" where
  "SELECT_rule nullable first follow r =
     FIRST_seq first nullable (snd r) \<union>
     (if set (snd r) \<subseteq> fset nullable then vals follow (fst r) else {})"

definition select_set :: "(rule \<rightharpoonup> symbol fset) \<Rightarrow> rule \<Rightarrow> symbol set" where
  "select_set select r = (case select r of None \<Rightarrow> {} | Some s \<Rightarrow> fset s)"

text \<open>The constraints on a FOLLOW mapping \<open>F\<close>, in the words of the specification: \<open>EOF\<close>
  is in \<open>F(start)\<close>, and for every rule \<open>A -> alpha B beta\<close> with \<open>B\<close> a nonterminal, FIRST of
  \<open>beta\<close> is inside \<open>F(B)\<close>, and \<open>F(A)\<close> is inside \<open>F(B)\<close> when \<open>beta\<close> is empty or made of
  nullable symbols only. Here \<open>B\<close> is \<open>body[i]\<close> and \<open>beta\<close> is \<open>body[i+1:]\<close>.\<close>

definition follow_constraints ::
  "grammar \<Rightarrow> symbol fset \<Rightarrow> symbol fset \<Rightarrow> symdict \<Rightarrow> (symbol \<Rightarrow> symbol set) \<Rightarrow> bool" where
  "follow_constraints g nts nullable first F \<longleftrightarrow>
     EOF \<in> F (fst (hd g)) \<and>
     (\<forall>(A, body)\<in>set g. \<forall>i<length body. body ! i |\<in>| nts \<longrightarrow>
        FIRST_seq first nullable (drop (i + 1) body) \<subseteq> F (body ! i) \<and>
        (set (drop (i + 1) body) \<subseteq> fset nullable \<longrightarrow> F A \<subseteq> F (body ! i)))"

text \<open>The states a program can hold: built by the constructor, then changed by successful
  calls of \<open>advance\<close> and \<open>match\<close>.\<close>

inductive reachable :: "parser \<Rightarrow> bool" where
  init: "Parser_init toks = Inr p \<Longrightarrow> reachable p"
| adv: "reachable p \<Longrightarrow> advance p = (Inr v, p') \<Longrightarrow> reachable p'"
| mat: "reachable p \<Longrightarrow> match p terminal = (Inr v, p') \<Longrightarrow> reachable p'"

section \<open>Notions of the proofs\<close>

definition univ :: "symbol set \<Rightarrow> symdict \<Rightarrow> symbol set" where
  "univ K d = (\<Union>k\<in>K. vals d k)"

definition ext :: "symbol set \<Rightarrow> symbol set \<Rightarrow> symdict \<Rightarrow> symdict \<Rightarrow> bool" where
  "ext K X d d' \<longleftrightarrow>
     dom d' = dom d \<and> (\<forall>k. vals d k \<subseteq> vals d' k) \<and> (\<forall>k. k \<notin> K \<longrightarrow> d' k = d k) \<and>
     (\<forall>k\<in>K. vals d' k \<subseteq> univ K d \<union> X)"

definition grows ::
  "symbol set \<Rightarrow> symbol set \<Rightarrow> symdict \<times> bool \<Rightarrow> symdict \<times> bool \<Rightarrow> bool" where
  "grows K X s s' \<longleftrightarrow> ext K X (fst s) (fst s') \<and> (snd s' \<longleftrightarrow> snd s \<or> fst s' \<noteq> fst s)"

definition pairs :: "symbol set \<Rightarrow> symbol set \<Rightarrow> symdict \<Rightarrow> (symbol \<times> symbol) set" where
  "pairs K X d = {(k, x). k \<in> K \<and> x \<in> univ K d \<union> X \<and> x \<notin> vals d k}"

definition syms :: "grammar \<Rightarrow> symbol set" where
  "syms g = fst ` set g \<union> (\<Union>r\<in>set g. set (snd r))"

definition wf_parser :: "parser \<Rightarrow> bool" where
  "wf_parser p \<longleftrightarrow>
     0 \<le> pos p \<and>
     t p = (if pos p < int (length (tokens p)) then fst (tokens p ! nat (pos p)) else EOF)"

text \<open>\<open>span p vs p'\<close>: from \<open>p\<close> to \<open>p'\<close> the parser has consumed tokens with the attached
  values \<open>vs\<close>, none of them tagged \<open>EOF\<close>, and \<open>p'\<close> is inside the token list.\<close>

definition span :: "parser \<Rightarrow> string list \<Rightarrow> parser \<Rightarrow> bool" where
  "span p vs p' \<longleftrightarrow>
     tokens p' = tokens p \<and> wf_parser p' \<and> pos p' \<le> int (length (tokens p)) \<and>
     (\<exists>zs. take (nat (pos p')) (tokens p) = take (nat (pos p)) (tokens p) @ zs \<and>
           vs = map snd zs \<and> EOF \<notin> fst ` set zs)"

definition sound :: "(nat \<Rightarrow> parser \<Rightarrow> (error + tree \<times> parser) option) \<Rightarrow> nat \<Rightarrow> bool" where
  "sound f n \<longleftrightarrow>
     (\<forall>p tr p'. wf_parser p \<longrightarrow> f n p = Some (Inr (tr, p')) \<longrightarrow> span p (leaves tr) p')"

definition first_init :: "symbol fset \<Rightarrow> symbol fset \<Rightarrow> symdict" where
  "first_init ts nts =
     (\<lambda>x. if x |\<in>| nts then Some {||} else if x |\<in>| ts then Some {|x|} else None)"

definition follow_init :: "symbol fset \<Rightarrow> symbol \<Rightarrow> symdict" where
  "follow_init nts start = (\<lambda>a. if a |\<in>| nts then Some {||} else None)(start \<mapsto> {|EOF|})"

definition conflict :: "(rule \<rightharpoonup> symbol fset) \<Rightarrow> grammar \<Rightarrow> nat \<Rightarrow> nat \<Rightarrow> bool" where
  "conflict select g i j \<longleftrightarrow>
     fst (g ! i) = fst (g ! j) \<and> select_set select (g ! i) \<inter> select_set select (g ! j) \<noteq> {}"

definition remaining :: "parser \<Rightarrow> nat" where
  "remaining p = nat (int (length (tokens p)) - pos p)"

text \<open>\<open>enough f c n\<close>: with fuel \<open>n\<close> the method \<open>f\<close> returns (a tree or an exception) on
  every state that leaves at most \<open>(n - c) / 4\<close> tokens to read.\<close>

definition enough :: "(nat \<Rightarrow> parser \<Rightarrow> (error + tree \<times> parser) option) \<Rightarrow> nat \<Rightarrow> nat \<Rightarrow> bool"
  where
  "enough f c n \<longleftrightarrow> (\<forall>p. wf_parser p \<longrightarrow> 4 * remaining p + c \<le> n \<longrightarrow> f n p \<noteq> None)"

section \<open>Termination of the fixed-point loops\<close>

subsection \<open>calculate_nullable terminates\<close>

lemma nullable_pass_grows:
  "nullable_pass g (n, c) = (n', c') \<Longrightarrow>
     n |\<subseteq>| n' \<and> fset n' \<subseteq> fset n \<union> fst ` set g \<and> (c' \<longleftrightarrow> c \<or> n' \<noteq> n)"
proof (induction g arbitrary: n c)
  case Nil
  then show ?case by auto
next
  case (Cons r g)
  obtain h b where r: "r = (h, b)" by (cases r)
  show ?case
  proof (cases "fset_of_list b |\<subseteq>| n \<and> h |\<notin>| n")
    case True
    with Cons.prems r have "nullable_pass g (finsert h n, True) = (n', c')" by simp
    from Cons.IH[OF this] True r show ?thesis by auto
  next
    case False
    with Cons.prems r have "nullable_pass g (n, c) = (n', c')" by auto
    from Cons.IH[OF this] show ?thesis by auto
  qed
qed

termination nullable_loop
proof (relation "measure (\<lambda>(g, n). card (fst ` set g - fset n))")
  show "wf (measure (\<lambda>(g, n). card (fst ` set g - fset n)))" by simp
next
  fix g :: grammar and nullable x :: "symbol fset" and xa :: bool
  assume pass: "(x, xa) = nullable_pass g (nullable, False)" and ch: xa
  from nullable_pass_grows[OF pass[symmetric]] ch
  have sub: "nullable |\<subseteq>| x" and heads: "fset x \<subseteq> fset nullable \<union> fst ` set g"
    and ne: "x \<noteq> nullable" by auto
  from sub ne obtain a where a: "a |\<in>| x" "a |\<notin>| nullable" by auto
  with heads have "a \<in> fst ` set g - fset nullable" by auto
  moreover from a have "a \<notin> fst ` set g - fset x" by auto
  moreover from sub have "fst ` set g - fset x \<subseteq> fst ` set g - fset nullable"
    by (auto simp: less_eq_fset.rep_eq)
  ultimately have "fst ` set g - fset x \<subset> fst ` set g - fset nullable" by auto
  then have "card (fst ` set g - fset x) < card (fst ` set g - fset nullable)"
    by (intro psubset_card_mono) auto
  then show "((g, x), (g, nullable)) \<in> measure (\<lambda>(g, n). card (fst ` set g - fset n))"
    by simp
qed

subsection \<open>Dictionaries of sets that only grow\<close>

lemma finite_syms: "finite (syms g)"
  by (simp add: syms_def)

lemma finite_vals: "finite (vals d k)"
  by (simp add: vals_def split: option.splits)

lemma finite_univ: "finite K \<Longrightarrow> finite (univ K d)"
  by (simp add: univ_def finite_vals)

lemma vals_eq_imp: "dom d' = dom d \<Longrightarrow> vals d' k = vals d k \<Longrightarrow> d' k = d k"
proof -
  assume dm: "dom d' = dom d" and v: "vals d' k = vals d k"
  show "d' k = d k"
  proof (cases "d k")
    case None
    then have "k \<notin> dom d'" using dm by auto
    with None show ?thesis by auto
  next
    case (Some s)
    then have "k \<in> dom d'" using dm by auto
    then obtain s' where s': "d' k = Some s'" by auto
    with Some v have "fset s' = fset s" by (simp add: vals_def)
    then have "s' = s" by (simp add: fset_inject)
    with Some s' show ?thesis by simp
  qed
qed

lemma ext_refl: "ext K X d d"
  by (auto simp: ext_def univ_def)

lemma ext_univ: "ext K X d d' \<Longrightarrow> univ K d' \<union> X = univ K d \<union> X"
  unfolding ext_def univ_def by blast

lemma ext_trans: "ext K X d d' \<Longrightarrow> ext K X d' d'' \<Longrightarrow> ext K X d d''"
proof -
  assume a: "ext K X d d'" and b: "ext K X d' d''"
  have u: "univ K d' \<union> X = univ K d \<union> X" by (rule ext_univ[OF a])
  from a b have "dom d'' = dom d" by (simp add: ext_def)
  moreover from a b have "\<forall>k. vals d k \<subseteq> vals d'' k" unfolding ext_def by blast
  moreover from a b have "\<forall>k. k \<notin> K \<longrightarrow> d'' k = d k" by (simp add: ext_def)
  moreover from b u have "\<forall>k\<in>K. vals d'' k \<subseteq> univ K d \<union> X" by (simp add: ext_def)
  ultimately show ?thesis by (simp add: ext_def)
qed

lemma ext_antisym: "ext K X d d' \<Longrightarrow> ext K X d' d \<Longrightarrow> d' = d"
proof
  fix k
  assume a: "ext K X d d'" and b: "ext K X d' d"
  then have "vals d' k = vals d k" unfolding ext_def by blast
  moreover from a have "dom d' = dom d" by (simp add: ext_def)
  ultimately show "d' k = d k" by (rule vals_eq_imp[rotated])
qed

lemma grows_refl: "grows K X s s"
  by (simp add: grows_def ext_refl)

lemma grows_trans: "grows K X s s' \<Longrightarrow> grows K X s' s'' \<Longrightarrow> grows K X s s''"
proof -
  assume a: "grows K X s s'" and b: "grows K X s' s''"
  then have e: "ext K X (fst s) (fst s'')" by (auto simp: grows_def intro: ext_trans)
  have "fst s'' = fst s \<longleftrightarrow> fst s' = fst s \<and> fst s'' = fst s'"
  proof
    assume eq: "fst s'' = fst s"
    with a b have "ext K X (fst s) (fst s')" "ext K X (fst s') (fst s)"
      by (simp_all add: grows_def)
    then have "fst s' = fst s" by (rule ext_antisym)
    with eq show "fst s' = fst s \<and> fst s'' = fst s'" by simp
  qed simp
  moreover from a have "snd s' \<longleftrightarrow> snd s \<or> fst s' \<noteq> fst s" by (simp add: grows_def)
  moreover from b have "snd s'' \<longleftrightarrow> snd s' \<or> fst s'' \<noteq> fst s'" by (simp add: grows_def)
  ultimately have "snd s'' \<longleftrightarrow> snd s \<or> fst s'' \<noteq> fst s" by blast
  with e show ?thesis by (simp add: grows_def)
qed

lemma grows_antisym: "grows K X s s' \<Longrightarrow> grows K X s' s \<Longrightarrow> s' = s"
proof -
  assume a: "grows K X s s'" and b: "grows K X s' s"
  then have "fst s' = fst s" by (auto simp: grows_def intro: ext_antisym)
  moreover with a have "snd s' = snd s" by (simp add: grows_def)
  ultimately show ?thesis by (simp add: prod_eq_iff)
qed

lemma add_items_grows:
  assumes "add_items key items st = Inr st'" and "key \<in> K"
    and "fset items \<subseteq> univ K (fst st) \<union> X"
  shows "grows K X st st'"
proof -
  obtain d c where st: "st = (d, c)" by (cases st)
  show ?thesis
  proof (cases "items = {||} \<or> (\<exists>s. d key = Some s \<and> items |\<subseteq>| s)")
    case True
    with assms(1) st have "st' = st" by (auto simp: add_items_def split: if_splits)
    then show ?thesis by (simp add: grows_refl)
  next
    case False
    with assms(1) st obtain s where s: "d key = Some s" and ns: "\<not> items |\<subseteq>| s"
      and st': "st' = (d(key \<mapsto> s |\<union>| items), True)"
      by (auto simp: add_items_def split: option.splits if_splits)
    let ?d' = "d(key \<mapsto> s |\<union>| items)"
    have "dom ?d' = dom d" using s by auto
    moreover have "\<forall>k. vals d k \<subseteq> vals ?d' k" using s by (auto simp: vals_def)
    moreover have "\<forall>k. k \<notin> K \<longrightarrow> ?d' k = d k" using assms(2) by auto
    moreover have "\<forall>k\<in>K. vals ?d' k \<subseteq> univ K d \<union> X"
    proof
      fix k assume k: "k \<in> K"
      have "vals d k \<subseteq> univ K d" using k by (auto simp: univ_def)
      moreover have "vals d key \<subseteq> univ K d" using assms(2) by (auto simp: univ_def)
      ultimately show "vals ?d' k \<subseteq> univ K d \<union> X"
        using assms(3) s st by (auto simp: vals_def)
    qed
    ultimately have e: "ext K X d ?d'" by (simp add: ext_def)
    from ns have "s |\<union>| items \<noteq> s" by auto
    then have "?d' key \<noteq> d key" using s by simp
    then have "?d' \<noteq> d" by metis
    with e st st' show ?thesis by (simp add: grows_def)
  qed
qed

lemma foldE_grows:
  assumes "\<And>x s s'. x \<in> set xs \<Longrightarrow> f x s = Inr s' \<Longrightarrow> grows K X s s'"
    and "foldE f xs s = Inr s'"
  shows "grows K X s s'"
  using assms
proof (induction xs arbitrary: s)
  case Nil
  then show ?case by (simp add: grows_refl)
next
  case (Cons x xs)
  from Cons.prems(2) obtain s1 where s1: "f x s = Inr s1" and rest: "foldE f xs s1 = Inr s'"
    by (auto split: sum.splits)
  have "grows K X s s1" by (rule Cons.prems(1)[OF _ s1]) simp
  moreover have "grows K X s1 s'"
  proof (rule Cons.IH[OF _ rest])
    fix y t t'
    assume "y \<in> set xs" and "f y t = Inr t'"
    then show "grows K X t t'" using Cons.prems(1)[of y t t'] by simp
  qed
  ultimately show ?case by (rule grows_trans)
qed

lemma grows_measure:
  assumes "grows K X (d, False) (d', True)" and "finite K" and "finite X"
  shows "card (pairs K X d') < card (pairs K X d)"
proof -
  from assms(1) have e: "ext K X d d'" and ne: "d' \<noteq> d" by (simp_all add: grows_def)
  have u: "univ K d' \<union> X = univ K d \<union> X" by (rule ext_univ[OF e])
  from ne obtain k where k: "d' k \<noteq> d k" by auto
  with e have kK: "k \<in> K" by (auto simp: ext_def)
  from e have dm: "dom d' = dom d" by (simp add: ext_def)
  from k dm have "vals d' k \<noteq> vals d k" using vals_eq_imp by blast
  moreover from e have "vals d k \<subseteq> vals d' k" by (simp add: ext_def)
  ultimately obtain x where x: "x \<in> vals d' k" "x \<notin> vals d k" by auto
  from e kK x have "x \<in> univ K d \<union> X" by (auto simp: ext_def)
  with kK x have "(k, x) \<in> pairs K X d" by (simp add: pairs_def)
  moreover from x have "(k, x) \<notin> pairs K X d'" by (simp add: pairs_def)
  moreover from e u have "pairs K X d' \<subseteq> pairs K X d" by (auto simp: pairs_def ext_def)
  ultimately have "pairs K X d' \<subset> pairs K X d" by auto
  moreover have "finite (pairs K X d)"
  proof (rule finite_subset)
    show "pairs K X d \<subseteq> K \<times> (univ K d \<union> X)" by (auto simp: pairs_def)
    show "finite (K \<times> (univ K d \<union> X))" using assms(2,3) by (simp add: finite_univ)
  qed
  ultimately show ?thesis by (rule psubset_card_mono[rotated])
qed

subsection \<open>calculate_first terminates\<close>

lemma first_step_grows:
  assumes "first_step nullable head body i st = Inr st'" and "(head, body) \<in> set g"
    and "i < length body"
  shows "grows (syms g) X st st'"
proof (cases "is_nullable (take i body) nullable")
  case True
  with assms(1) obtain items where it: "fst st (body ! i) = Some items"
    and a: "add_items head items st = Inr st'"
    by (auto simp: first_step_def split: option.splits)
  have h: "head \<in> syms g" using assms(2) by (force simp: syms_def)
  have "body ! i \<in> syms g" using assms(2,3) by (force simp: syms_def)
  then have "fset items \<subseteq> univ (syms g) (fst st)" using it by (force simp: univ_def vals_def)
  then show ?thesis using add_items_grows[OF a h] by blast
next
  case False
  with assms(1) show ?thesis by (simp add: first_step_def grows_refl)
qed

lemma first_rule_grows:
  assumes "first_rule nullable r st = Inr st'" and "r \<in> set g"
  shows "grows (syms g) X st st'"
proof -
  obtain head body where r: "r = (head, body)" by (cases r)
  with assms(1) have f: "foldE (first_step nullable head body) [0..<length body] st = Inr st'"
    by (simp add: first_rule_def)
  show ?thesis
  proof (rule foldE_grows[OF _ f])
    fix x s s'
    assume "x \<in> set [0..<length body]" and "first_step nullable head body x s = Inr s'"
    then show "grows (syms g) X s s'" using first_step_grows assms(2) r by auto
  qed
qed

lemma first_pass_grows:
  assumes "first_pass g nullable st = Inr st'"
  shows "grows (syms g) X st st'"
proof (rule foldE_grows)
  show "foldE (first_rule nullable) g st = Inr st'" using assms by (simp add: first_pass_def)
next
  fix x s s'
  assume "x \<in> set g" and "first_rule nullable x s = Inr s'"
  then show "grows (syms g) X s s'" by (rule first_rule_grows[rotated])
qed

termination first_loop
proof (relation "measure (\<lambda>(g, nullable, d). card (pairs (syms g) {} d))")
  show "wf (measure (\<lambda>(g, nullable, d). card (pairs (syms g) {} d)))" by simp
next
  fix g :: grammar and nullable :: "symbol fset" and first :: symdict
    and x2 :: "symdict \<times> bool" and x1 :: symdict and x2a :: bool
  assume "first_pass g nullable (first, False) = Inr x2" and "(x1, x2a) = x2" and x2a
  then have "first_pass g nullable (first, False) = Inr (x1, True)" by simp
  then have "grows (syms g) {} (first, False) (x1, True)" by (rule first_pass_grows)
  then have "card (pairs (syms g) {} x1) < card (pairs (syms g) {} first)"
    by (rule grows_measure) (simp_all add: finite_syms)
  then show "((g, nullable, x1), (g, nullable, first))
      \<in> measure (\<lambda>(g, nullable, d). card (pairs (syms g) {} d))" by simp
qed

subsection \<open>calculate_follow terminates\<close>

lemma follow_step1_grows:
  assumes "follow_step1 terminals nullable head body i st = Inr st'" and "(head, body) \<in> set g"
    and "i < length body"
  shows "grows (syms g) X st st'"
proof (cases "body ! i |\<notin>| terminals \<and> is_nullable (drop (i + 1) body) nullable")
  case True
  with assms(1) obtain items where it: "fst st head = Some items"
    and a: "add_items (body ! i) items st = Inr st'"
    by (auto simp: follow_step1_def split: option.splits)
  have h: "head \<in> syms g" using assms(2) by (force simp: syms_def)
  have b: "body ! i \<in> syms g" using assms(2,3) by (force simp: syms_def)
  from h it have "fset items \<subseteq> univ (syms g) (fst st)" by (force simp: univ_def vals_def)
  then show ?thesis using add_items_grows[OF a b] by blast
next
  case False
  with assms(1) have "st' = st" by (auto simp: follow_step1_def split: if_splits)
  then show ?thesis by (simp add: grows_refl)
qed

lemma follow_step2_grows:
  assumes "follow_step2 nullable first body i j st = Inr st'" and "(head, body) \<in> set g"
    and "i < length body" and "j < length body"
  shows "grows (syms g) (univ (syms g) first) st st'"
proof (cases "is_nullable (take (j - (i + 1)) (drop (i + 1) body)) nullable")
  case True
  with assms(1) obtain items where it: "first (body ! j) = Some items"
    and a: "add_items (body ! i) items st = Inr st'"
    by (auto simp: follow_step2_def split: option.splits)
  have b: "body ! i \<in> syms g" using assms(2,3) by (force simp: syms_def)
  have "body ! j \<in> syms g" using assms(2,4) by (force simp: syms_def)
  with it have "fset items \<subseteq> univ (syms g) first" by (force simp: univ_def vals_def)
  then show ?thesis using add_items_grows[OF a b] by blast
next
  case False
  with assms(1) show ?thesis by (simp add: follow_step2_def grows_refl)
qed

lemma follow_inner_grows:
  assumes "follow_inner terminals nullable first body i st = Inr st'"
    and "(head, body) \<in> set g" and "i < length body"
  shows "grows (syms g) (univ (syms g) first) st st'"
proof (cases "body ! i |\<in>| terminals")
  case True
  with assms(1) show ?thesis by (simp add: follow_inner_def grows_refl)
next
  case False
  with assms(1)
  have f: "foldE (follow_step2 nullable first body i) [i + 1..<length body] st = Inr st'"
    by (simp add: follow_inner_def)
  show ?thesis
  proof (rule foldE_grows[OF _ f])
    fix x s s'
    assume "x \<in> set [i + 1..<length body]" and "follow_step2 nullable first body i x s = Inr s'"
    then show "grows (syms g) (univ (syms g) first) s s'"
      using follow_step2_grows[OF _ assms(2,3)] by auto
  qed
qed

lemma follow_rule_grows:
  assumes "follow_rule terminals nullable first r st = Inr st'" and "r \<in> set g"
  shows "grows (syms g) (univ (syms g) first) st st'"
proof -
  obtain head body where r: "r = (head, body)" by (cases r)
  with assms(1) obtain st1
    where f1: "foldE (follow_step1 terminals nullable head body) [0..<length body] st = Inr st1"
      and f2: "foldE (follow_inner terminals nullable first body) [0..<length body - 1] st1
                = Inr st'"
    by (auto simp: follow_rule_def split: sum.splits)
  have "grows (syms g) (univ (syms g) first) st st1"
  proof (rule foldE_grows[OF _ f1])
    fix x s s'
    assume "x \<in> set [0..<length body]"
      and "follow_step1 terminals nullable head body x s = Inr s'"
    then show "grows (syms g) (univ (syms g) first) s s'"
      using follow_step1_grows assms(2) r by auto
  qed
  moreover have "grows (syms g) (univ (syms g) first) st1 st'"
  proof (rule foldE_grows[OF _ f2])
    fix x s s'
    assume "x \<in> set [0..<length body - 1]"
      and "follow_inner terminals nullable first body x s = Inr s'"
    then show "grows (syms g) (univ (syms g) first) s s'"
      using follow_inner_grows[of terminals nullable first body x s s' head g] assms(2) r
      by auto
  qed
  ultimately show ?thesis by (rule grows_trans)
qed

lemma follow_pass_grows:
  assumes "follow_pass g terminals nullable first st = Inr st'"
  shows "grows (syms g) (univ (syms g) first) st st'"
proof (rule foldE_grows)
  show "foldE (follow_rule terminals nullable first) g st = Inr st'"
    using assms by (simp add: follow_pass_def)
next
  fix x s s'
  assume "x \<in> set g" and "follow_rule terminals nullable first x s = Inr s'"
  then show "grows (syms g) (univ (syms g) first) s s'" by (rule follow_rule_grows[rotated])
qed

termination follow_loop
proof (relation
    "measure (\<lambda>(g, terminals, nullable, first, d). card (pairs (syms g) (univ (syms g) first) d))")
  show "wf (measure (\<lambda>(g, terminals, nullable, first, d).
          card (pairs (syms g) (univ (syms g) first) d)))" by simp
next
  fix g :: grammar and terminals nullable :: "symbol fset" and first follow :: symdict
    and x2 :: "symdict \<times> bool" and x1 :: symdict and x2a :: bool
  assume "follow_pass g terminals nullable first (follow, False) = Inr x2"
    and "(x1, x2a) = x2" and x2a
  then have "follow_pass g terminals nullable first (follow, False) = Inr (x1, True)" by simp
  then have "grows (syms g) (univ (syms g) first) (follow, False) (x1, True)"
    by (rule follow_pass_grows)
  then have "card (pairs (syms g) (univ (syms g) first) x1)
      < card (pairs (syms g) (univ (syms g) first) follow)"
    by (rule grows_measure) (simp_all add: finite_syms finite_univ)
  then show "((g, terminals, nullable, first, x1), (g, terminals, nullable, first, follow))
      \<in> measure (\<lambda>(g, terminals, nullable, first, d).
            card (pairs (syms g) (univ (syms g) first) d))" by simp
qed

section \<open>Properties of the parser\<close>

lemma advance_nonneg:
  assumes "0 \<le> pos p"
  shows "advance p =
    (Inr (if pos p < int (length (tokens p)) then snd (tokens p ! nat (pos p)) else EOF),
     p\<lparr>pos := pos p + 1,
       t := (if pos p + 1 < int (length (tokens p))
             then fst (tokens p ! nat (pos p + 1)) else EOF)\<rparr>)"
  using assms by (simp add: advance_def py_index_def Let_def)

lemma advance_wf: "wf_parser p \<Longrightarrow> advance p = (r, p') \<Longrightarrow> wf_parser p'"
  by (auto simp: wf_parser_def advance_nonneg)

lemma Parser_init_Inr:
  assumes "Parser_init toks = Inr p"
  shows "toks \<noteq> [] \<and> p = \<lparr>tokens = toks, pos = 0, t = fst (toks ! 0)\<rparr>"
proof (cases toks)
  case Nil
  with assms show ?thesis by (simp add: Parser_init_def advance_def py_index_def)
next
  case (Cons a list)
  with assms show ?thesis
    by (auto simp: Parser_init_def advance_def py_index_def Let_def split: if_splits)
qed

lemma Parser_init_wf: "Parser_init toks = Inr p \<Longrightarrow> wf_parser p"
  by (drule Parser_init_Inr) (auto simp: wf_parser_def)

lemma reachable_wf: "reachable p \<Longrightarrow> wf_parser p"
proof (induction rule: reachable.induct)
  case (init toks p)
  then show ?case by (rule Parser_init_wf)
next
  case (adv p v p')
  then show ?case by (auto intro: advance_wf)
next
  case (mat p terminal v p')
  then show ?case by (auto simp: match_def intro: advance_wf split: if_splits)
qed

subsection \<open>What a successful parse method has consumed\<close>

lemma span_wf: "span p vs p' \<Longrightarrow> wf_parser p'"
  by (simp add: span_def)

lemma span_refl: "wf_parser p \<Longrightarrow> t p \<noteq> EOF \<Longrightarrow> span p [] p"
  by (auto simp: span_def wf_parser_def split: if_splits)

lemma span_trans:
  assumes "span p vs p1" and "span p1 ws p2"
  shows "span p (vs @ ws) p2"
proof -
  from assms(1) obtain zs where tk1: "tokens p1 = tokens p"
    and zs: "take (nat (pos p1)) (tokens p) = take (nat (pos p)) (tokens p) @ zs"
      "vs = map snd zs" "EOF \<notin> fst ` set zs"
    by (auto simp: span_def)
  from assms(2) tk1 obtain ys where tk2: "tokens p2 = tokens p" and w: "wf_parser p2"
    and le: "pos p2 \<le> int (length (tokens p))"
    and ys: "take (nat (pos p2)) (tokens p) = take (nat (pos p1)) (tokens p) @ ys"
      "ws = map snd ys" "EOF \<notin> fst ` set ys"
    by (auto simp: span_def)
  from zs ys have "take (nat (pos p2)) (tokens p) = take (nat (pos p)) (tokens p) @ (zs @ ys)"
    "vs @ ws = map snd (zs @ ys)" "EOF \<notin> fst ` set (zs @ ys)" by auto
  with tk2 w le show ?thesis unfolding span_def by blast
qed

lemma match_span:
  assumes "wf_parser p" and "x \<noteq> EOF" and "match p x = (Inr c, p1)"
  shows "span p [c] p1"
proof -
  from assms(3) have tx: "t p = x" by (auto simp: match_def split: if_splits)
  from assms(1) have nn: "0 \<le> pos p" by (simp add: wf_parser_def)
  from assms(1,2) tx have lt: "pos p < int (length (tokens p))"
    and fs: "fst (tokens p ! nat (pos p)) = x"
    by (auto simp: wf_parser_def split: if_splits)
  from assms(3) tx have adv: "advance p = (Inr c, p1)" by (simp add: match_def)
  then have w1: "wf_parser p1" using advance_wf assms(1) by blast
  from adv nn lt have c: "c = snd (tokens p ! nat (pos p))" and p1: "pos p1 = pos p + 1"
    and tk: "tokens p1 = tokens p"
    by (auto simp: advance_nonneg)
  from nn lt have n: "nat (pos p) < length (tokens p)" by simp
  from nn p1 have "nat (pos p1) = Suc (nat (pos p))" by simp
  then have "take (nat (pos p1)) (tokens p)
      = take (nat (pos p)) (tokens p) @ [tokens p ! nat (pos p)]"
    using n by (simp add: take_Suc_conv_app_nth)
  moreover have "[c] = map snd [tokens p ! nat (pos p)]" using c by simp
  moreover have "EOF \<notin> fst ` set [tokens p ! nat (pos p)]" using fs assms(2) by simp
  ultimately have "\<exists>zs. take (nat (pos p1)) (tokens p) = take (nat (pos p)) (tokens p) @ zs
      \<and> [c] = map snd zs \<and> EOF \<notin> fst ` set zs" by (intro exI conjI)
  moreover have "pos p1 \<le> int (length (tokens p))" using p1 lt by simp
  ultimately show ?thesis using tk w1 by (simp add: span_def)
qed

lemma bindP_Inr:
  assumes "bindP m f = Some (Inr r)"
  obtains v p1 where "m = Some (Inr (v, p1))" and "f v p1 = Some (Inr r)"
  using assms by (auto simp: bindP_def split: option.splits sum.splits prod.splits)

lemma step_match:
  assumes "bindP (run (match p x)) f = Some (Inr r)" and "wf_parser p" and "x \<noteq> EOF"
  obtains c p1 where "span p [c] p1" and "f c p1 = Some (Inr r)"
proof -
  from assms(1) obtain c p1 where m: "run (match p x) = Some (Inr (c, p1))"
    and f: "f c p1 = Some (Inr r)" by (rule bindP_Inr)
  from m have "match p x = (Inr c, p1)"
    by (auto simp: run_def split: prod.splits sum.splits)
  then have "span p [c] p1" by (rule match_span[OF assms(2,3)])
  then show ?thesis using f by (rule that)
qed

lemma step_call:
  assumes "bindP (f n p) k = Some (Inr r)" and "sound f n" and "wf_parser p"
  obtains c p1 where "span p (leaves c) p1" and "k c p1 = Some (Inr r)"
proof -
  from assms(1) obtain c p1 where m: "f n p = Some (Inr (c, p1))"
    and k: "k c p1 = Some (Inr r)" by (rule bindP_Inr)
  from assms(2,3) m have "span p (leaves c) p1" by (simp add: sound_def)
  then show ?thesis using k by (rule that)
qed

lemma sound_0:
  "sound parse_keyvalue 0" "sound parse_obj 0" "sound parse_obj_right_set 0"
  "sound parse_obj_right_arr 0" "sound parse_members_set 0" "sound parse_members_arr 0"
  "sound parse_members_right_set 0" "sound parse_members_right_arr 0" "sound parse_value 0"
  by (simp_all add: sound_def)

lemma neq_EOF:
  "STRING \<noteq> EOF" "COLON \<noteq> EOF" "LB \<noteq> EOF" "RB \<noteq> EOF" "LS \<noteq> EOF" "RS \<noteq> EOF"
  "COMMA \<noteq> EOF" "INT_sym \<noteq> EOF"
  by (simp_all add: symbol_defs)

lemma sound_keyvalue:
  assumes "sound parse_value n"
  shows "sound parse_keyvalue (Suc n)"
  unfolding sound_def
proof (intro allI impI)
  fix p tr p'
  assume w: "wf_parser p" and r: "parse_keyvalue (Suc n) p = Some (Inr (tr, p'))"
  from r have tp: "t p = STRING" by (auto split: if_splits)
  with r have b: "bindP (run (match p STRING)) (\<lambda>c1 p1.
        bindP (run (match p1 COLON)) (\<lambda>c2 p2.
        bindP (parse_value n p2) (\<lambda>c3 p3.
        Some (Inr (Node keyvalue [Leaf c1, Leaf c2, c3], p3))))) = Some (Inr (tr, p'))"
    by simp
  from step_match[OF b w neq_EOF(1)] obtain c1 p1 where s1: "span p [c1] p1"
    and b1: "bindP (run (match p1 COLON)) (\<lambda>c2 p2.
        bindP (parse_value n p2) (\<lambda>c3 p3.
        Some (Inr (Node keyvalue [Leaf c1, Leaf c2, c3], p3)))) = Some (Inr (tr, p'))"
    by blast
  from step_match[OF b1 span_wf[OF s1] neq_EOF(2)] obtain c2 p2 where s2: "span p1 [c2] p2"
    and b2: "bindP (parse_value n p2) (\<lambda>c3 p3.
        Some (Inr (Node keyvalue [Leaf c1, Leaf c2, c3], p3))) = Some (Inr (tr, p'))"
    by blast
  from step_call[OF b2 assms span_wf[OF s2]] obtain c3 p3 where s3: "span p2 (leaves c3) p3"
    and e: "Some (Inr (Node keyvalue [Leaf c1, Leaf c2, c3], p3)) = Some (Inr (tr, p'))"
    by blast
  from span_trans[OF s1 span_trans[OF s2 s3]] e show "span p (leaves tr) p'" by auto
qed

lemma sound_obj:
  assumes "sound parse_obj_right_set n" and "sound parse_obj_right_arr n"
  shows "sound parse_obj (Suc n)"
  unfolding sound_def
proof (intro allI impI)
  fix p tr p'
  assume w: "wf_parser p" and r: "parse_obj (Suc n) p = Some (Inr (tr, p'))"
  have ne: "LS \<noteq> LB" by (simp add: symbol_defs)
  from r consider (lb) "t p = LB" | (ls) "t p = LS" by (auto split: if_splits)
  then show "span p (leaves tr) p'"
  proof cases
    case lb
    with r have b: "bindP (run (match p LB)) (\<lambda>c1 p1.
        bindP (parse_obj_right_set n p1) (\<lambda>c2 p2.
        Some (Inr (Node obj [Leaf c1, c2], p2)))) = Some (Inr (tr, p'))" by simp
    from step_match[OF b w neq_EOF(3)] obtain c1 p1 where s1: "span p [c1] p1"
      and b1: "bindP (parse_obj_right_set n p1) (\<lambda>c2 p2.
        Some (Inr (Node obj [Leaf c1, c2], p2))) = Some (Inr (tr, p'))" by blast
    from step_call[OF b1 assms(1) span_wf[OF s1]] obtain c2 p2
      where s2: "span p1 (leaves c2) p2"
        and e: "Some (Inr (Node obj [Leaf c1, c2], p2)) = Some (Inr (tr, p'))" by blast
    from span_trans[OF s1 s2] e show ?thesis by auto
  next
    case ls
    with r ne have b: "bindP (run (match p LS)) (\<lambda>c1 p1.
        bindP (parse_obj_right_arr n p1) (\<lambda>c2 p2.
        Some (Inr (Node obj [Leaf c1, c2], p2)))) = Some (Inr (tr, p'))" by simp
    from step_match[OF b w neq_EOF(5)] obtain c1 p1 where s1: "span p [c1] p1"
      and b1: "bindP (parse_obj_right_arr n p1) (\<lambda>c2 p2.
        Some (Inr (Node obj [Leaf c1, c2], p2))) = Some (Inr (tr, p'))" by blast
    from step_call[OF b1 assms(2) span_wf[OF s1]] obtain c2 p2
      where s2: "span p1 (leaves c2) p2"
        and e: "Some (Inr (Node obj [Leaf c1, c2], p2)) = Some (Inr (tr, p'))" by blast
    from span_trans[OF s1 s2] e show ?thesis by auto
  qed
qed

lemma sound_obj_right_set:
  assumes "sound parse_members_set n"
  shows "sound parse_obj_right_set (Suc n)"
  unfolding sound_def
proof (intro allI impI)
  fix p tr p'
  assume w: "wf_parser p" and r: "parse_obj_right_set (Suc n) p = Some (Inr (tr, p'))"
  have ne: "STRING \<noteq> RB" by (simp add: symbol_defs)
  from r consider (rb) "t p = RB" | (st) "t p = STRING" by (auto split: if_splits)
  then show "span p (leaves tr) p'"
  proof cases
    case rb
    with r have b: "bindP (run (match p RB)) (\<lambda>c1 p1.
        Some (Inr (Node obj_right_set [Leaf c1], p1))) = Some (Inr (tr, p'))" by simp
    from step_match[OF b w neq_EOF(4)] obtain c1 p1 where s1: "span p [c1] p1"
      and e: "Some (Inr (Node obj_right_set [Leaf c1], p1)) = Some (Inr (tr, p'))" by blast
    then show ?thesis by auto
  next
    case st
    with r ne have b: "bindP (parse_members_set n p) (\<lambda>c1 p1.
        bindP (run (match p1 RB)) (\<lambda>c2 p2.
        Some (Inr (Node obj_right_set [c1, Leaf c2], p2)))) = Some (Inr (tr, p'))" by simp
    from step_call[OF b assms w] obtain c1 p1 where s1: "span p (leaves c1) p1"
      and b1: "bindP (run (match p1 RB)) (\<lambda>c2 p2.
        Some (Inr (Node obj_right_set [c1, Leaf c2], p2))) = Some (Inr (tr, p'))" by blast
    from step_match[OF b1 span_wf[OF s1] neq_EOF(4)] obtain c2 p2 where s2: "span p1 [c2] p2"
      and e: "Some (Inr (Node obj_right_set [c1, Leaf c2], p2)) = Some (Inr (tr, p'))"
      by blast
    from span_trans[OF s1 s2] e show ?thesis by auto
  qed
qed

lemma sound_obj_right_arr:
  assumes "sound parse_members_arr n"
  shows "sound parse_obj_right_arr (Suc n)"
  unfolding sound_def
proof (intro allI impI)
  fix p tr p'
  assume w: "wf_parser p" and r: "parse_obj_right_arr (Suc n) p = Some (Inr (tr, p'))"
  show "span p (leaves tr) p'"
  proof (cases "t p = RS")
    case True
    with r have b: "bindP (run (match p RS)) (\<lambda>c1 p1.
        Some (Inr (Node obj_right_arr [Leaf c1], p1))) = Some (Inr (tr, p'))" by simp
    from step_match[OF b w neq_EOF(6)] obtain c1 p1 where s1: "span p [c1] p1"
      and e: "Some (Inr (Node obj_right_arr [Leaf c1], p1)) = Some (Inr (tr, p'))" by blast
    then show ?thesis by auto
  next
    case False
    with r have b: "bindP (parse_members_arr n p) (\<lambda>c1 p1.
        bindP (run (match p1 RS)) (\<lambda>c2 p2.
        Some (Inr (Node obj_right_arr [c1, Leaf c2], p2)))) = Some (Inr (tr, p'))"
      by (auto split: if_splits)
    from step_call[OF b assms w] obtain c1 p1 where s1: "span p (leaves c1) p1"
      and b1: "bindP (run (match p1 RS)) (\<lambda>c2 p2.
        Some (Inr (Node obj_right_arr [c1, Leaf c2], p2))) = Some (Inr (tr, p'))" by blast
    from step_match[OF b1 span_wf[OF s1] neq_EOF(6)] obtain c2 p2 where s2: "span p1 [c2] p2"
      and e: "Some (Inr (Node obj_right_arr [c1, Leaf c2], p2)) = Some (Inr (tr, p'))"
      by blast
    from span_trans[OF s1 s2] e show ?thesis by auto
  qed
qed

lemma sound_members_set:
  assumes "sound parse_keyvalue n" and "sound parse_members_right_set n"
  shows "sound parse_members_set (Suc n)"
  unfolding sound_def
proof (intro allI impI)
  fix p tr p'
  assume w: "wf_parser p" and r: "parse_members_set (Suc n) p = Some (Inr (tr, p'))"
  from r have b: "bindP (parse_keyvalue n p) (\<lambda>c1 p1.
        bindP (parse_members_right_set n p1) (\<lambda>c2 p2.
        Some (Inr (Node members_set [c1, c2], p2)))) = Some (Inr (tr, p'))"
    by (auto split: if_splits)
  from step_call[OF b assms(1) w] obtain c1 p1 where s1: "span p (leaves c1) p1"
    and b1: "bindP (parse_members_right_set n p1) (\<lambda>c2 p2.
        Some (Inr (Node members_set [c1, c2], p2))) = Some (Inr (tr, p'))" by blast
  from step_call[OF b1 assms(2) span_wf[OF s1]] obtain c2 p2
    where s2: "span p1 (leaves c2) p2"
      and e: "Some (Inr (Node members_set [c1, c2], p2)) = Some (Inr (tr, p'))" by blast
  from span_trans[OF s1 s2] e show "span p (leaves tr) p'" by auto
qed

lemma sound_members_arr:
  assumes "sound parse_value n" and "sound parse_members_right_arr n"
  shows "sound parse_members_arr (Suc n)"
  unfolding sound_def
proof (intro allI impI)
  fix p tr p'
  assume w: "wf_parser p" and r: "parse_members_arr (Suc n) p = Some (Inr (tr, p'))"
  from r have b: "bindP (parse_value n p) (\<lambda>c1 p1.
        bindP (parse_members_right_arr n p1) (\<lambda>c2 p2.
        Some (Inr (Node members_arr [c1, c2], p2)))) = Some (Inr (tr, p'))"
    by (auto split: if_splits)
  from step_call[OF b assms(1) w] obtain c1 p1 where s1: "span p (leaves c1) p1"
    and b1: "bindP (parse_members_right_arr n p1) (\<lambda>c2 p2.
        Some (Inr (Node members_arr [c1, c2], p2))) = Some (Inr (tr, p'))" by blast
  from step_call[OF b1 assms(2) span_wf[OF s1]] obtain c2 p2
    where s2: "span p1 (leaves c2) p2"
      and e: "Some (Inr (Node members_arr [c1, c2], p2)) = Some (Inr (tr, p'))" by blast
  from span_trans[OF s1 s2] e show "span p (leaves tr) p'" by auto
qed

lemma sound_members_right_set:
  assumes "sound parse_members_set n"
  shows "sound parse_members_right_set (Suc n)"
  unfolding sound_def
proof (intro allI impI)
  fix p tr p'
  assume w: "wf_parser p" and r: "parse_members_right_set (Suc n) p = Some (Inr (tr, p'))"
  have ne: "RB \<noteq> COMMA" by (simp add: symbol_defs)
  from r consider (co) "t p = COMMA" | (rb) "t p = RB" by (auto split: if_splits)
  then show "span p (leaves tr) p'"
  proof cases
    case co
    with r have b: "bindP (run (match p COMMA)) (\<lambda>c1 p1.
        bindP (parse_members_set n p1) (\<lambda>c2 p2.
        Some (Inr (Node members_right_set [Leaf c1, c2], p2)))) = Some (Inr (tr, p'))"
      by simp
    from step_match[OF b w neq_EOF(7)] obtain c1 p1 where s1: "span p [c1] p1"
      and b1: "bindP (parse_members_set n p1) (\<lambda>c2 p2.
        Some (Inr (Node members_right_set [Leaf c1, c2], p2))) = Some (Inr (tr, p'))"
      by blast
    from step_call[OF b1 assms span_wf[OF s1]] obtain c2 p2
      where s2: "span p1 (leaves c2) p2"
        and e: "Some (Inr (Node members_right_set [Leaf c1, c2], p2)) = Some (Inr (tr, p'))"
      by blast
    from span_trans[OF s1 s2] e show ?thesis by auto
  next
    case rb
    with r ne have e: "tr = Node members_right_set []" "p' = p" by auto
    from rb neq_EOF(4) have "t p \<noteq> EOF" by simp
    with w e show ?thesis by (simp add: span_refl)
  qed
qed

lemma sound_members_right_arr:
  assumes "sound parse_members_arr n"
  shows "sound parse_members_right_arr (Suc n)"
  unfolding sound_def
proof (intro allI impI)
  fix p tr p'
  assume w: "wf_parser p" and r: "parse_members_right_arr (Suc n) p = Some (Inr (tr, p'))"
  have ne: "RS \<noteq> COMMA" by (simp add: symbol_defs)
  from r consider (co) "t p = COMMA" | (rs) "t p = RS" by (auto split: if_splits)
  then show "span p (leaves tr) p'"
  proof cases
    case co
    with r have b: "bindP (run (match p COMMA)) (\<lambda>c1 p1.
        bindP (parse_members_arr n p1) (\<lambda>c2 p2.
        Some (Inr (Node members_right_arr [Leaf c1, c2], p2)))) = Some (Inr (tr, p'))"
      by simp
    from step_match[OF b w neq_EOF(7)] obtain c1 p1 where s1: "span p [c1] p1"
      and b1: "bindP (parse_members_arr n p1) (\<lambda>c2 p2.
        Some (Inr (Node members_right_arr [Leaf c1, c2], p2))) = Some (Inr (tr, p'))"
      by blast
    from step_call[OF b1 assms span_wf[OF s1]] obtain c2 p2
      where s2: "span p1 (leaves c2) p2"
        and e: "Some (Inr (Node members_right_arr [Leaf c1, c2], p2)) = Some (Inr (tr, p'))"
      by blast
    from span_trans[OF s1 s2] e show ?thesis by auto
  next
    case rs
    with r ne have e: "tr = Node members_right_arr []" "p' = p" by auto
    from rs neq_EOF(6) have "t p \<noteq> EOF" by simp
    with w e show ?thesis by (simp add: span_refl)
  qed
qed

lemma sound_value:
  assumes "sound parse_obj n"
  shows "sound parse_value (Suc n)"
  unfolding sound_def
proof (intro allI impI)
  fix p tr p'
  assume w: "wf_parser p" and r: "parse_value (Suc n) p = Some (Inr (tr, p'))"
  show "span p (leaves tr) p'"
  proof (cases "t p = STRING \<or> t p = INT_sym")
    case True
    then have ne: "t p \<noteq> EOF" using neq_EOF by auto
    from True r have b: "bindP (run (match p (t p))) (\<lambda>c1 p1.
        Some (Inr (Node value_nt [Leaf c1], p1))) = Some (Inr (tr, p'))" by auto
    from step_match[OF b w ne] obtain c1 p1 where s1: "span p [c1] p1"
      and e: "Some (Inr (Node value_nt [Leaf c1], p1)) = Some (Inr (tr, p'))" by blast
    then show ?thesis by auto
  next
    case False
    with r have b: "bindP (parse_obj n p) (\<lambda>c1 p1.
        Some (Inr (Node value_nt [c1], p1))) = Some (Inr (tr, p'))"
      by (auto split: if_splits)
    from step_call[OF b assms w] obtain c1 p1 where s1: "span p (leaves c1) p1"
      and e: "Some (Inr (Node value_nt [c1], p1)) = Some (Inr (tr, p'))" by blast
    then show ?thesis by auto
  qed
qed

lemma sound_all:
  "sound parse_keyvalue n \<and> sound parse_obj n \<and> sound parse_obj_right_set n \<and>
   sound parse_obj_right_arr n \<and> sound parse_members_set n \<and> sound parse_members_arr n \<and>
   sound parse_members_right_set n \<and> sound parse_members_right_arr n \<and> sound parse_value n"
proof (induction n)
  case 0
  show ?case by (simp add: sound_0)
next
  case (Suc n)
  then show ?case
    by (simp add: sound_keyvalue sound_obj sound_obj_right_set sound_obj_right_arr
        sound_members_set sound_members_arr sound_members_right_set
        sound_members_right_arr sound_value)
qed

lemma takeWhile_take:
  assumes "\<forall>x\<in>set (take k xs). P x" and "length xs \<le> k \<or> \<not> P (xs ! k)"
  shows "takeWhile P xs = take k xs"
proof -
  have "takeWhile P xs = takeWhile P (take k xs @ drop k xs)" by simp
  also have "\<dots> = take k xs @ takeWhile P (drop k xs)"
    using assms(1) by (simp only: takeWhile_append2)
  also have "takeWhile P (drop k xs) = []"
  proof (cases "length xs \<le> k")
    case True
    then show ?thesis by simp
  next
    case False
    with assms(2) have "\<not> P (xs ! k)" and "k < length xs" by auto
    then have "\<not> P (hd (drop k xs))" and "drop k xs \<noteq> []" by (simp_all add: hd_drop_conv_nth)
    then show ?thesis by (cases "drop k xs") auto
  qed
  finally show ?thesis by simp
qed

subsection \<open>Enough fuel: every parse method returns\<close>

lemma bindP_returns:
  assumes "m \<noteq> None" and "\<And>v p1. m = Some (Inr (v, p1)) \<Longrightarrow> k v p1 \<noteq> None"
  shows "bindP m k \<noteq> None"
  using assms by (auto simp: bindP_def split: option.splits sum.splits prod.splits)

lemma run_returns: "run r \<noteq> None"
  by (auto simp: run_def split: prod.splits sum.splits)

lemma match_remaining:
  assumes "run (match p x) = Some (Inr (c, p1))" and "wf_parser p" and "x \<noteq> EOF"
  shows "wf_parser p1 \<and> Suc (remaining p1) = remaining p"
proof -
  from assms(1) have m: "match p x = (Inr c, p1)"
    by (auto simp: run_def split: prod.splits sum.splits)
  then have tx: "t p = x" by (auto simp: match_def split: if_splits)
  from assms(2) have nn: "0 \<le> pos p" by (simp add: wf_parser_def)
  from assms(2,3) tx have lt: "pos p < int (length (tokens p))"
    by (auto simp: wf_parser_def split: if_splits)
  from m tx have adv: "advance p = (Inr c, p1)" by (simp add: match_def)
  then have "wf_parser p1" using advance_wf assms(2) by blast
  moreover from adv nn have "pos p1 = pos p + 1" and "tokens p1 = tokens p"
    by (auto simp: advance_nonneg)
  with lt nn have "Suc (remaining p1) = remaining p" by (simp add: remaining_def)
  ultimately show ?thesis by simp
qed

lemma span_remaining:
  assumes "span p vs p1" and "wf_parser p"
  shows "remaining p1 \<le> remaining p"
proof -
  from assms(1) obtain zs where tk: "tokens p1 = tokens p"
    and le: "pos p1 \<le> int (length (tokens p))" and w1: "wf_parser p1"
    and zs: "take (nat (pos p1)) (tokens p) = take (nat (pos p)) (tokens p) @ zs"
    by (auto simp: span_def)
  from w1 have n1: "0 \<le> pos p1" by (simp add: wf_parser_def)
  from assms(2) have n0: "0 \<le> pos p" by (simp add: wf_parser_def)
  from zs have "length (take (nat (pos p1)) (tokens p))
      = length (take (nat (pos p)) (tokens p)) + length zs" by (metis length_append)
  with le n1 have "min (length (tokens p)) (nat (pos p)) \<le> nat (pos p1)" by simp
  with tk n0 n1 le show ?thesis by (auto simp: remaining_def min_def split: if_splits)
qed

lemma call_remaining:
  assumes "f n p = Some (Inr (c, p1))" and "sound f n" and "wf_parser p"
  shows "wf_parser p1 \<and> remaining p1 \<le> remaining p"
proof -
  from assms have s: "span p (leaves c) p1" by (simp add: sound_def)
  from span_wf[OF s] span_remaining[OF s assms(3)] show ?thesis by simp
qed

lemma enoughD: "enough f c n \<Longrightarrow> wf_parser p \<Longrightarrow> 4 * remaining p + c \<le> n \<Longrightarrow> f n p \<noteq> None"
  by (simp add: enough_def)

lemma if_returns: "(c \<Longrightarrow> a \<noteq> None) \<Longrightarrow> (\<not> c \<Longrightarrow> b \<noteq> None) \<Longrightarrow> (if c then a else b) \<noteq> None"
  by simp

lemma returns_match:
  assumes "wf_parser p" and "x \<noteq> EOF"
    and "\<And>c p1. wf_parser p1 \<Longrightarrow> Suc (remaining p1) = remaining p \<Longrightarrow> k c p1 \<noteq> None"
  shows "bindP (run (match p x)) k \<noteq> None"
proof (rule bindP_returns[OF run_returns])
  fix v p1
  assume "run (match p x) = Some (Inr (v, p1))"
  from match_remaining[OF this assms(1,2)] show "k v p1 \<noteq> None" by (simp add: assms(3))
qed

lemma returns_call:
  assumes "enough f c n" and "sound f n" and "wf_parser p" and "4 * remaining p + c \<le> n"
    and "\<And>v p1. wf_parser p1 \<Longrightarrow> remaining p1 \<le> remaining p \<Longrightarrow> k v p1 \<noteq> None"
  shows "bindP (f n p) k \<noteq> None"
proof (rule bindP_returns)
  show "f n p \<noteq> None" by (rule enoughD[OF assms(1,3,4)])
next
  fix v p1
  assume "f n p = Some (Inr (v, p1))"
  from call_remaining[OF this assms(2,3)] show "k v p1 \<noteq> None" by (simp add: assms(5))
qed

lemma enough_keyvalue:
  assumes "enough parse_value 2 n"
  shows "enough parse_keyvalue 1 (Suc n)"
  unfolding enough_def
proof (intro allI impI)
  fix p
  assume w: "wf_parser p" and f: "4 * remaining p + 1 \<le> Suc n"
  have s: "sound parse_value n" using sound_all[of n] by simp
  show "parse_keyvalue (Suc n) p \<noteq> None"
    apply (simp only: parse_keyvalue.simps)
    apply (rule if_returns)
     apply (rule returns_match[OF w neq_EOF(1)])
    subgoal for c1 p1
      apply (rule returns_match[OF _ neq_EOF(2)], assumption)
      subgoal for c2 p2
        apply (rule returns_call[OF assms s], assumption)
        using f apply arith
        apply simp
        done
      done
    apply simp
    done
qed

lemma enough_obj:
  assumes "enough parse_obj_right_set 3 n" and "enough parse_obj_right_arr 4 n"
  shows "enough parse_obj 1 (Suc n)"
  unfolding enough_def
proof (intro allI impI)
  fix p
  assume w: "wf_parser p" and f: "4 * remaining p + 1 \<le> Suc n"
  have s1: "sound parse_obj_right_set n" using sound_all[of n] by simp
  have s2: "sound parse_obj_right_arr n" using sound_all[of n] by simp
  show "parse_obj (Suc n) p \<noteq> None"
    apply (simp only: parse_obj.simps)
    apply (rule if_returns)
     apply (rule returns_match[OF w neq_EOF(3)])
    subgoal for c1 p1
      apply (rule returns_call[OF assms(1) s1], assumption)
      using f apply arith
      apply simp
      done
    apply (rule if_returns)
     apply (rule returns_match[OF w neq_EOF(5)])
    subgoal for c1 p1
      apply (rule returns_call[OF assms(2) s2], assumption)
      using f apply arith
      apply simp
      done
    apply simp
    done
qed

lemma enough_obj_right_set:
  assumes "enough parse_members_set 2 n"
  shows "enough parse_obj_right_set 3 (Suc n)"
  unfolding enough_def
proof (intro allI impI)
  fix p
  assume w: "wf_parser p" and f: "4 * remaining p + 3 \<le> Suc n"
  have s1: "sound parse_members_set n" using sound_all[of n] by simp
  show "parse_obj_right_set (Suc n) p \<noteq> None"
    apply (simp only: parse_obj_right_set.simps)
    apply (rule if_returns)
     apply (rule returns_match[OF w neq_EOF(4)])
     apply simp
    apply (rule if_returns)
     apply (rule returns_call[OF assms s1 w])
    using f apply arith
    subgoal for c1 p1
      apply (rule returns_match[OF _ neq_EOF(4)], assumption)
      apply simp
      done
    apply simp
    done
qed

lemma enough_obj_right_arr:
  assumes "enough parse_members_arr 3 n"
  shows "enough parse_obj_right_arr 4 (Suc n)"
  unfolding enough_def
proof (intro allI impI)
  fix p
  assume w: "wf_parser p" and f: "4 * remaining p + 4 \<le> Suc n"
  have s1: "sound parse_members_arr n" using sound_all[of n] by simp
  show "parse_obj_right_arr (Suc n) p \<noteq> None"
    apply (simp only: parse_obj_right_arr.simps)
    apply (rule if_returns)
     apply (rule returns_match[OF w neq_EOF(6)])
     apply simp
    apply (rule if_returns)
     apply (rule returns_call[OF assms s1 w])
    using f apply arith
    subgoal for c1 p1
      apply (rule returns_match[OF _ neq_EOF(6)], assumption)
      apply simp
      done
    apply simp
    done
qed

lemma enough_members_set:
  assumes "enough parse_keyvalue 1 n" and "enough parse_members_right_set 1 n"
  shows "enough parse_members_set 2 (Suc n)"
  unfolding enough_def
proof (intro allI impI)
  fix p
  assume w: "wf_parser p" and f: "4 * remaining p + 2 \<le> Suc n"
  have s1: "sound parse_keyvalue n" using sound_all[of n] by simp
  have s2: "sound parse_members_right_set n" using sound_all[of n] by simp
  show "parse_members_set (Suc n) p \<noteq> None"
    apply (simp only: parse_members_set.simps)
    apply (rule if_returns)
     apply (rule returns_call[OF assms(1) s1 w])
    using f apply arith
    subgoal for c1 p1
      apply (rule returns_call[OF assms(2) s2], assumption)
      using f apply arith
      apply simp
      done
    apply simp
    done
qed

lemma enough_members_arr:
  assumes "enough parse_value 2 n" and "enough parse_members_right_arr 1 n"
  shows "enough parse_members_arr 3 (Suc n)"
  unfolding enough_def
proof (intro allI impI)
  fix p
  assume w: "wf_parser p" and f: "4 * remaining p + 3 \<le> Suc n"
  have s1: "sound parse_value n" using sound_all[of n] by simp
  have s2: "sound parse_members_right_arr n" using sound_all[of n] by simp
  show "parse_members_arr (Suc n) p \<noteq> None"
    apply (simp only: parse_members_arr.simps)
    apply (rule if_returns)
     apply (rule returns_call[OF assms(1) s1 w])
    using f apply arith
    subgoal for c1 p1
      apply (rule returns_call[OF assms(2) s2], assumption)
      using f apply arith
      apply simp
      done
    apply simp
    done
qed

lemma enough_members_right_set:
  assumes "enough parse_members_set 2 n"
  shows "enough parse_members_right_set 1 (Suc n)"
  unfolding enough_def
proof (intro allI impI)
  fix p
  assume w: "wf_parser p" and f: "4 * remaining p + 1 \<le> Suc n"
  have s1: "sound parse_members_set n" using sound_all[of n] by simp
  show "parse_members_right_set (Suc n) p \<noteq> None"
    apply (simp only: parse_members_right_set.simps)
    apply (rule if_returns)
     apply (rule returns_match[OF w neq_EOF(7)])
    subgoal for c1 p1
      apply (rule returns_call[OF assms s1], assumption)
      using f apply arith
      apply simp
      done
    apply simp
    done
qed

lemma enough_members_right_arr:
  assumes "enough parse_members_arr 3 n"
  shows "enough parse_members_right_arr 1 (Suc n)"
  unfolding enough_def
proof (intro allI impI)
  fix p
  assume w: "wf_parser p" and f: "4 * remaining p + 1 \<le> Suc n"
  have s1: "sound parse_members_arr n" using sound_all[of n] by simp
  show "parse_members_right_arr (Suc n) p \<noteq> None"
    apply (simp only: parse_members_right_arr.simps)
    apply (rule if_returns)
     apply (rule returns_match[OF w neq_EOF(7)])
    subgoal for c1 p1
      apply (rule returns_call[OF assms s1], assumption)
      using f apply arith
      apply simp
      done
    apply simp
    done
qed

lemma enough_value:
  assumes "enough parse_obj 1 n"
  shows "enough parse_value 2 (Suc n)"
  unfolding enough_def
proof (intro allI impI)
  fix p
  assume w: "wf_parser p" and f: "4 * remaining p + 2 \<le> Suc n"
  have s1: "sound parse_obj n" using sound_all[of n] by simp
  show "parse_value (Suc n) p \<noteq> None"
    apply (simp only: parse_value.simps)
    apply (rule if_returns)
     apply (rule returns_match[OF w])
      apply (auto simp: symbol_defs)[1]
     apply simp
    apply (rule if_returns)
     apply (rule returns_call[OF assms s1 w])
    using f apply arith
     apply simp
    apply simp
    done
qed

lemma enough_all:
  "enough parse_keyvalue 1 n \<and> enough parse_obj 1 n \<and> enough parse_obj_right_set 3 n \<and>
   enough parse_obj_right_arr 4 n \<and> enough parse_members_set 2 n \<and>
   enough parse_members_arr 3 n \<and> enough parse_members_right_set 1 n \<and>
   enough parse_members_right_arr 1 n \<and> enough parse_value 2 n"
proof (induction n)
  case 0
  show ?case by (simp add: enough_def)
next
  case (Suc n)
  then show ?case
    by (blast intro: enough_keyvalue enough_obj enough_obj_right_set enough_obj_right_arr
        enough_members_set enough_members_arr enough_members_right_set
        enough_members_right_arr enough_value)
qed

text \<open>With fuel \<open>4 * len(tokens) + 1\<close> a run of \<open>JsonParser(tokens).parse()\<close> returns: a tree
  or an exception, never \<open>None\<close>.\<close>

lemma JsonParser_parse_returns:
  assumes "4 * length toks + 1 \<le> n"
  shows "JsonParser_parse n toks \<noteq> None"
proof (cases "Parser_init toks")
  case (Inl e)
  then show ?thesis by (simp add: JsonParser_parse_def)
next
  case (Inr p)
  from Parser_init_Inr[OF Inr] have "remaining p = length toks" by (auto simp: remaining_def)
  with assms have f: "4 * remaining p + 1 \<le> n" by simp
  have w: "wf_parser p" by (rule Parser_init_wf[OF Inr])
  have e: "enough parse_obj 1 n" using enough_all[of n] by simp
  have s: "sound parse_obj n" using sound_all[of n] by simp
  have "parse n p \<noteq> None"
    unfolding parse_def
    apply (rule returns_call[OF e s w f])
    apply (rule bindP_returns[OF run_returns])
    apply simp
    done
  with Inr show ?thesis by (auto simp: JsonParser_parse_def split: option.splits sum.splits)
qed

section \<open>Properties of the analyzer\<close>

declare nullable_loop.simps [simp del]

declare first_loop.simps [simp del]

declare follow_loop.simps [simp del]

subsection \<open>The nullable set as a least fixed point\<close>

lemma nullable_init_set:
  "fset (nullable_init g n) = fset n \<union> {h. (h, []) \<in> set g}"
  by (induction g n rule: nullable_init.induct) auto

lemma nullable_pass_below:
  assumes "nullable_pass g (n, c) = (n', c')" and "\<forall>(h, b)\<in>set g. set b \<subseteq> M \<longrightarrow> h \<in> M"
    and "fset n \<subseteq> M"
  shows "fset n' \<subseteq> M"
  using assms
proof (induction g arbitrary: n c)
  case Nil
  then show ?case by simp
next
  case (Cons r g)
  obtain h b where r: "r = (h, b)" by (cases r)
  from Cons.prems(2) have rest: "\<forall>(h, b)\<in>set g. set b \<subseteq> M \<longrightarrow> h \<in> M" by simp
  show ?case
  proof (cases "fset_of_list b |\<subseteq>| n \<and> h |\<notin>| n")
    case True
    with Cons.prems(1) r have p: "nullable_pass g (finsert h n, True) = (n', c')" by simp
    from True Cons.prems(3) have "set b \<subseteq> M" by (auto simp: less_eq_fset.rep_eq fset_of_list.rep_eq)
    with Cons.prems(2) r have "h \<in> M" by simp
    with Cons.prems(3) have "fset (finsert h n) \<subseteq> M" by simp
    from Cons.IH[OF p rest this] show ?thesis .
  next
    case False
    with Cons.prems(1) r have p: "nullable_pass g (n, c) = (n', c')" by auto
    from Cons.IH[OF p rest Cons.prems(3)] show ?thesis .
  qed
qed

lemma nullable_pass_fixed:
  assumes "nullable_pass g (n, c) = (n, c')"
  shows "\<forall>(h, b)\<in>set g. set b \<subseteq> fset n \<longrightarrow> h \<in> fset n"
  using assms
proof (induction g arbitrary: c)
  case Nil
  then show ?case by simp
next
  case (Cons r g)
  obtain h b where r: "r = (h, b)" by (cases r)
  show ?case
  proof (cases "fset_of_list b |\<subseteq>| n \<and> h |\<notin>| n")
    case True
    with Cons.prems r have "nullable_pass g (finsert h n, True) = (n, c')" by simp
    from nullable_pass_grows[OF this] have "h |\<in>| n" by auto
    with True show ?thesis by simp
  next
    case False
    with Cons.prems r have p: "nullable_pass g (n, c) = (n, c')" by auto
    from False have "set b \<subseteq> fset n \<longrightarrow> h \<in> fset n"
      by (auto simp: less_eq_fset.rep_eq fset_of_list.rep_eq)
    with Cons.IH[OF p] r show ?thesis by simp
  qed
qed

lemma nullable_loop_fixed:
  "nullable_pass g (nullable_loop g n, False) = (nullable_loop g n, False)"
proof (induction g n rule: nullable_loop.induct)
  case (1 g n)
  obtain n' c' where p: "nullable_pass g (n, False) = (n', c')"
    by (cases "nullable_pass g (n, False)")
  show ?case
  proof (cases c')
    case True
    with p have "nullable_loop g n = nullable_loop g n'" by (subst nullable_loop.simps) simp
    with "1.IH"[OF p[symmetric] True] show ?thesis by simp
  next
    case False
    with p have l: "nullable_loop g n = n'" by (subst nullable_loop.simps) simp
    from nullable_pass_grows[OF p] False have "n' = n" by simp
    with p l False show ?thesis by simp
  qed
qed

lemma nullable_loop_below:
  assumes "\<forall>(h, b)\<in>set g. set b \<subseteq> M \<longrightarrow> h \<in> M" and "fset n \<subseteq> M"
  shows "fset (nullable_loop g n) \<subseteq> M"
  using assms
proof (induction g n rule: nullable_loop.induct)
  case (1 g n)
  obtain n' c' where p: "nullable_pass g (n, False) = (n', c')"
    by (cases "nullable_pass g (n, False)")
  from nullable_pass_below[OF p "1.prems"] have b: "fset n' \<subseteq> M" .
  show ?case
  proof (cases c')
    case True
    with p have "nullable_loop g n = nullable_loop g n'" by (subst nullable_loop.simps) simp
    with "1.IH"[OF p[symmetric] True "1.prems"(1) b] show ?thesis by simp
  next
    case False
    with p have "nullable_loop g n = n'" by (subst nullable_loop.simps) simp
    with b show ?thesis by simp
  qed
qed

lemma calculate_nullable_closed:
  "nullable_closed g (fset (calculate_nullable ts nts g))"
  unfolding nullable_closed_def calculate_nullable_def
  by (rule nullable_pass_fixed[OF nullable_loop_fixed])

lemma calculate_nullable_least:
  assumes "nullable_closed g M"
  shows "fset (calculate_nullable ts nts g) \<subseteq> M"
  unfolding calculate_nullable_def
proof (rule nullable_loop_below)
  show "\<forall>(h, b)\<in>set g. set b \<subseteq> M \<longrightarrow> h \<in> M" using assms by (simp add: nullable_closed_def)
  from assms show "fset (nullable_init g {||}) \<subseteq> M"
    by (auto simp: nullable_init_set nullable_closed_def)
qed

lemma calculate_nullable_heads: "fset (calculate_nullable ts nts g) \<subseteq> fst ` set g"
proof (rule calculate_nullable_least)
  show "nullable_closed g (fst ` set g)" by (force simp: nullable_closed_def)
qed

subsection \<open>Loops that may raise: invariants, totality, fixed points\<close>

lemma foldE_inv:
  assumes "foldE f xs s = Inr s'" and "P s"
    and "\<And>x s s'. x \<in> set xs \<Longrightarrow> P s \<Longrightarrow> f x s = Inr s' \<Longrightarrow> P s'"
  shows "P s'"
  using assms
proof (induction xs arbitrary: s)
  case Nil
  then show ?case by simp
next
  case (Cons x xs)
  from Cons.prems(1) obtain s1 where s1: "f x s = Inr s1" and rest: "foldE f xs s1 = Inr s'"
    by (auto split: sum.splits)
  have "P s1" by (rule Cons.prems(3)[OF _ Cons.prems(2) s1]) simp
  show ?case
  proof (rule Cons.IH[OF rest \<open>P s1\<close>])
    fix y u u'
    assume "y \<in> set xs" and "P u" and "f y u = Inr u'"
    then show "P u'" using Cons.prems(3)[of y u u'] by simp
  qed
qed

lemma foldE_total:
  assumes "P s" and "\<And>x s. x \<in> set xs \<Longrightarrow> P s \<Longrightarrow> \<exists>s'. f x s = Inr s' \<and> P s'"
  shows "\<exists>s'. foldE f xs s = Inr s' \<and> P s'"
  using assms
proof (induction xs arbitrary: s)
  case Nil
  then show ?case by simp
next
  case (Cons x xs)
  have "\<exists>s1. f x s = Inr s1 \<and> P s1" by (rule Cons.prems(2)[OF _ Cons.prems(1)]) simp
  then obtain s1 where s1: "f x s = Inr s1" and p1: "P s1" by blast
  have "\<exists>s'. foldE f xs s1 = Inr s' \<and> P s'"
  proof (rule Cons.IH[OF p1])
    fix y u
    assume "y \<in> set xs" and "P u"
    then show "\<exists>u'. f y u = Inr u' \<and> P u'" using Cons.prems(2)[of y u] by simp
  qed
  with s1 show ?case by simp
qed

lemma foldE_fixed:
  assumes "foldE f xs s = Inr s"
    and "\<And>x u u'. x \<in> set xs \<Longrightarrow> f x u = Inr u' \<Longrightarrow> grows K X u u'"
  shows "\<forall>x\<in>set xs. f x s = Inr s"
  using assms
proof (induction xs)
  case Nil
  then show ?case by simp
next
  case (Cons x xs)
  from Cons.prems(1) obtain s1 where s1: "f x s = Inr s1" and rest: "foldE f xs s1 = Inr s"
    by (auto split: sum.splits)
  have g1: "grows K X s s1" by (rule Cons.prems(2)[OF _ s1]) simp
  have g2: "grows K X s1 s"
  proof (rule foldE_grows[OF _ rest])
    fix y u u'
    assume "y \<in> set xs" and "f y u = Inr u'"
    then show "grows K X u u'" using Cons.prems(2)[of y u u'] by simp
  qed
  from grows_antisym[OF g1 g2] have eq: "s1 = s" .
  have "\<forall>y\<in>set xs. f y s = Inr s"
  proof (rule Cons.IH)
    show "foldE f xs s = Inr s" using rest eq by simp
  next
    fix y u u'
    assume "y \<in> set xs" and "f y u = Inr u'"
    then show "grows K X u u'" using Cons.prems(2)[of y u u'] by simp
  qed
  with s1 eq show ?case by simp
qed

lemma grows_dom: "grows K X s s' \<Longrightarrow> dom (fst s') = dom (fst s)"
  by (simp add: grows_def ext_def)

lemma add_items_total:
  assumes "key \<in> dom (fst st)"
  shows "\<exists>st'. add_items key items st = Inr st'"
proof -
  obtain d c where st: "st = (d, c)" by (cases st)
  with assms obtain s where s: "d key = Some s" by auto
  show ?thesis
  proof (cases "items = {||} \<or> items |\<subseteq>| s")
    case True
    with st s have "add_items key items st = Inr (d, c)" by (auto simp: add_items_def)
    then show ?thesis by blast
  next
    case False
    with st s have "add_items key items st = Inr (d(key \<mapsto> s |\<union>| items), True)"
      by (simp add: add_items_def)
    then show ?thesis by blast
  qed
qed

lemma add_items_fixed:
  assumes "add_items key items (d, c) = Inr (d, c)"
  shows "fset items \<subseteq> vals d key"
proof (cases "items = {||}")
  case True
  then show ?thesis by simp
next
  case False
  with assms obtain s where s: "d key = Some s"
    by (auto simp: add_items_def split: option.splits)
  show ?thesis
  proof (cases "items |\<subseteq>| s")
    case True
    with s show ?thesis by (auto simp: vals_def less_eq_fset.rep_eq)
  next
    case False
    with assms s \<open>items \<noteq> {||}\<close> have "d(key \<mapsto> s |\<union>| items) = d"
      by (simp add: add_items_def)
    then have "(d(key \<mapsto> s |\<union>| items)) key = d key" by simp
    with s have "s |\<union>| items = s" by simp
    with False show ?thesis by auto
  qed
qed

lemma add_items_below:
  assumes "add_items key items (d, c) = Inr (d', c')" and "\<forall>k. vals d k \<subseteq> F k"
    and "fset items \<subseteq> F key"
  shows "\<forall>k. vals d' k \<subseteq> F k"
proof -
  have "d' = d \<or> (\<exists>s. d key = Some s \<and> d' = d(key \<mapsto> s |\<union>| items))"
  proof (cases "items = {||}")
    case True
    with assms(1) show ?thesis by (simp add: add_items_def)
  next
    case False
    with assms(1) obtain s where s: "d key = Some s"
      by (auto simp: add_items_def split: option.splits)
    show ?thesis
    proof (cases "items |\<subseteq>| s")
      case True
      with assms(1) s False show ?thesis by (simp add: add_items_def)
    next
      case ns: False
      with assms(1) s False show ?thesis by (simp add: add_items_def)
    qed
  qed
  then consider "d' = d" | s where "d key = Some s" "d' = d(key \<mapsto> s |\<union>| items)"
    by blast
  then show ?thesis
  proof cases
    case 1
    with assms(2) show ?thesis by simp
  next
    case 2
    show ?thesis
    proof
      fix k
      from 2 have "vals d' k \<subseteq> vals d k \<union> (if k = key then fset items else {})"
        by (auto simp: vals_def)
      with assms(2,3) show "vals d' k \<subseteq> F k" by (auto split: if_splits)
    qed
  qed
qed

subsection \<open>Terminals and nonterminals of a grammar\<close>

lemma find_terminals_and_nonterminals_sets:
  assumes "find_terminals_and_nonterminals g = (ts, nts)"
  shows "fset nts = fst ` set g" and "fset ts = (\<Union>r\<in>set g. set (snd r)) - fst ` set g"
proof -
  from assms have n: "nts = fset_of_list (map fst g)"
    and t: "ts = fset_of_list (concat (map snd g)) |-| fset_of_list (map fst g)"
    by (auto simp: find_terminals_and_nonterminals_def Let_def)
  from n show "fset nts = fst ` set g" by (simp add: fset_of_list.rep_eq)
  have "set (concat (map snd g)) = (\<Union>r\<in>set g. set (snd r))" by auto
  with t show "fset ts = (\<Union>r\<in>set g. set (snd r)) - fst ` set g"
    by (simp add: fset_of_list.rep_eq)
qed

lemma syms_split:
  assumes "find_terminals_and_nonterminals g = (ts, nts)"
  shows "syms g = fset ts \<union> fset nts"
  using find_terminals_and_nonterminals_sets[OF assms] by (auto simp: syms_def)

lemma head_in_syms: "(h, b) \<in> set g \<Longrightarrow> h \<in> syms g"
  by (force simp: syms_def)

lemma body_in_syms: "(h, b) \<in> set g \<Longrightarrow> i < length b \<Longrightarrow> b ! i \<in> syms g"
  by (force simp: syms_def)

lemma is_nullable_iff: "is_nullable xs nl \<longleftrightarrow> set xs \<subseteq> fset nl"
  by (induction xs) auto

subsection \<open>calculate_first returns\<close>

lemma first_step_total:
  assumes "syms g \<subseteq> dom (fst st)" and "(head, body) \<in> set g" and "i < length body"
  shows "\<exists>st'. first_step nl head body i st = Inr st'"
proof (cases "is_nullable (take i body) nl")
  case True
  from body_in_syms[OF assms(2,3)] assms(1) obtain items
    where it: "fst st (body ! i) = Some items" by auto
  from head_in_syms[OF assms(2)] assms(1) have "head \<in> dom (fst st)" by auto
  from add_items_total[OF this] obtain st' where "add_items head items st = Inr st'" by blast
  with True it show ?thesis by (simp add: first_step_def)
next
  case False
  then show ?thesis by (simp add: first_step_def)
qed

lemma first_rule_total:
  assumes "syms g \<subseteq> dom (fst st)" and "r \<in> set g"
  shows "\<exists>st'. first_rule nl r st = Inr st'"
proof -
  obtain head body where r: "r = (head, body)" by (cases r)
  have "\<exists>st'. foldE (first_step nl head body) [0..<length body] st = Inr st'
      \<and> syms g \<subseteq> dom (fst st')"
  proof (rule foldE_total[where P = "\<lambda>s. syms g \<subseteq> dom (fst s)"])
    show "syms g \<subseteq> dom (fst st)" by (rule assms(1))
  next
    fix x and s :: "symdict \<times> bool"
    assume x: "x \<in> set [0..<length body]" and d: "syms g \<subseteq> dom (fst s)"
    from x assms(2) r have rule: "(head, body) \<in> set g" and lt: "x < length body" by auto
    from first_step_total[OF d rule lt] obtain s'
      where s': "first_step nl head body x s = Inr s'" by blast
    from first_step_grows[OF s' rule lt] have "dom (fst s') = dom (fst s)" by (rule grows_dom)
    with s' d show "\<exists>s'. first_step nl head body x s = Inr s' \<and> syms g \<subseteq> dom (fst s')"
      by auto
  qed
  with r show ?thesis by (auto simp: first_rule_def)
qed

lemma first_pass_total:
  assumes "syms g \<subseteq> dom (fst st)"
  shows "\<exists>st'. first_pass g nl st = Inr st'"
proof -
  have "\<exists>st'. foldE (first_rule nl) g st = Inr st' \<and> syms g \<subseteq> dom (fst st')"
  proof (rule foldE_total[where P = "\<lambda>s. syms g \<subseteq> dom (fst s)"])
    show "syms g \<subseteq> dom (fst st)" by (rule assms)
  next
    fix x and s :: "symdict \<times> bool"
    assume x: "x \<in> set g" and d: "syms g \<subseteq> dom (fst s)"
    from first_rule_total[OF d x] obtain s' where s': "first_rule nl x s = Inr s'" by blast
    from first_rule_grows[OF s' x] have "dom (fst s') = dom (fst s)" by (rule grows_dom)
    with s' d show "\<exists>s'. first_rule nl x s = Inr s' \<and> syms g \<subseteq> dom (fst s')" by auto
  qed
  then show ?thesis by (auto simp: first_pass_def)
qed

lemma first_loop_result:
  assumes "syms g \<subseteq> dom d"
  shows "\<exists>d'. first_loop g nl d = Inr d' \<and> ext (syms g) {} d d'
           \<and> first_pass g nl (d', False) = Inr (d', False)"
  using assms
proof (induction g nl d rule: first_loop.induct)
  case (1 g nl d)
  from first_pass_total[of g "(d, False)" nl] "1.prems"
  obtain d1 c1 where p: "first_pass g nl (d, False) = Inr (d1, c1)" by auto
  from first_pass_grows[OF p] have gr: "grows (syms g) {} (d, False) (d1, c1)" .
  then have e: "ext (syms g) {} d d1" and c: "c1 \<longleftrightarrow> d1 \<noteq> d" by (simp_all add: grows_def)
  show ?case
  proof (cases c1)
    case True
    from e "1.prems" have "syms g \<subseteq> dom d1" by (simp add: ext_def)
    from "1.IH"[OF p refl True this] obtain d' where l: "first_loop g nl d1 = Inr d'"
      and e': "ext (syms g) {} d1 d'" and f: "first_pass g nl (d', False) = Inr (d', False)"
      by blast
    from p True have "first_loop g nl d = first_loop g nl d1"
      by (subst first_loop.simps) simp
    with l ext_trans[OF e e'] f show ?thesis by simp
  next
    case False
    with c have eq: "d1 = d" by simp
    from p False have "first_loop g nl d = Inr d1" by (subst first_loop.simps) simp
    with eq p False show ?thesis by (simp add: ext_refl)
  qed
qed

lemma first_loop_inv:
  assumes "first_loop g nl d = Inr d'" and "P d"
    and "\<And>u u' c. P u \<Longrightarrow> first_pass g nl (u, False) = Inr (u', c) \<Longrightarrow> P u'"
  shows "P d'"
  using assms
proof (induction g nl d rule: first_loop.induct)
  case (1 g nl d)
  from "1.prems"(1) obtain d1 c1 where p: "first_pass g nl (d, False) = Inr (d1, c1)"
    by (subst (asm) first_loop.simps) (auto split: sum.splits)
  from "1.prems"(3)[OF "1.prems"(2) p] have p1: "P d1" .
  show ?case
  proof (cases c1)
    case True
    with p "1.prems"(1) have l: "first_loop g nl d1 = Inr d'"
      by (subst (asm) first_loop.simps) simp
    show ?thesis by (rule "1.IH"[OF p refl True l p1]) (rule "1.prems"(3))
  next
    case False
    with p "1.prems"(1) have "d' = d1" by (subst (asm) first_loop.simps) simp
    with p1 show ?thesis by simp
  qed
qed

lemma calculate_first_result:
  assumes "find_terminals_and_nonterminals g = (ts, nts)"
  shows "\<exists>fi. calculate_first ts nts g nl = Inr fi \<and> dom fi = syms g
           \<and> first_pass g nl (fi, False) = Inr (fi, False)
           \<and> (\<forall>k. vals fi k \<subseteq> fset ts)"
proof -
  have dm: "dom (first_init ts nts) = syms g"
    by (auto simp: syms_split[OF assms] first_init_def dom_def)
  then have "syms g \<subseteq> dom (first_init ts nts)" by simp
  from first_loop_result[OF this] obtain fi where l: "first_loop g nl (first_init ts nts) = Inr fi"
    and e: "ext (syms g) {} (first_init ts nts) fi"
    and f: "first_pass g nl (fi, False) = Inr (fi, False)" by blast
  have u: "univ (syms g) (first_init ts nts) \<subseteq> fset ts"
    by (auto simp: univ_def vals_def first_init_def split: if_splits)
  have "vals fi k \<subseteq> fset ts" for k
  proof (cases "k \<in> syms g")
    case True
    with e have "vals fi k \<subseteq> univ (syms g) (first_init ts nts) \<union> {}"
      by (simp add: ext_def)
    with u show ?thesis by blast
  next
    case False
    with e have "fi k = first_init ts nts k" by (simp add: ext_def)
    moreover from False dm have "first_init ts nts k = None" by auto
    ultimately show ?thesis by (simp add: vals_def)
  qed
  moreover from e dm have "dom fi = syms g" by (simp add: ext_def)
  moreover from l have "calculate_first ts nts g nl = Inr fi"
    by (simp add: calculate_first_def first_init_def)
  ultimately show ?thesis using f by blast
qed

subsection \<open>calculate_follow returns\<close>

lemma follow_step1_total:
  assumes "fset nts \<subseteq> dom (fst st)" and "(head, body) \<in> set g" and "i < length body"
    and "syms g = fset ts \<union> fset nts" and "head |\<in>| nts"
  shows "\<exists>st'. follow_step1 ts nl head body i st = Inr st'"
proof (cases "body ! i |\<notin>| ts \<and> is_nullable (drop (i + 1) body) nl")
  case True
  from assms(1,5) obtain items where it: "fst st head = Some items" by auto
  from body_in_syms[OF assms(2,3)] assms(4) True have "body ! i |\<in>| nts" by auto
  with assms(1) have "body ! i \<in> dom (fst st)" by auto
  from add_items_total[OF this] obtain st'
    where "add_items (body ! i) items st = Inr st'" by blast
  with True it show ?thesis by (simp add: follow_step1_def)
next
  case False
  then show ?thesis by (auto simp: follow_step1_def)
qed

lemma follow_step2_total:
  assumes "fset nts \<subseteq> dom (fst st)" and "(head, body) \<in> set g" and "i < length body"
    and "j < length body" and "syms g = fset ts \<union> fset nts" and "body ! i |\<notin>| ts"
    and "syms g \<subseteq> dom fi"
  shows "\<exists>st'. follow_step2 nl fi body i j st = Inr st'"
proof (cases "is_nullable (take (j - (i + 1)) (drop (i + 1) body)) nl")
  case True
  from body_in_syms[OF assms(2,4)] assms(7) obtain items
    where it: "fi (body ! j) = Some items" by auto
  from body_in_syms[OF assms(2,3)] assms(5,6) have "body ! i |\<in>| nts" by auto
  with assms(1) have "body ! i \<in> dom (fst st)" by auto
  from add_items_total[OF this] obtain st'
    where "add_items (body ! i) items st = Inr st'" by blast
  with True it show ?thesis by (simp add: follow_step2_def)
next
  case False
  then show ?thesis by (simp add: follow_step2_def)
qed

lemma follow_inner_total:
  assumes "fset nts \<subseteq> dom (fst st)" and "(head, body) \<in> set g" and "i < length body"
    and "syms g = fset ts \<union> fset nts" and "syms g \<subseteq> dom fi"
  shows "\<exists>st'. follow_inner ts nl fi body i st = Inr st'"
proof (cases "body ! i |\<in>| ts")
  case True
  then show ?thesis by (simp add: follow_inner_def)
next
  case False
  have "\<exists>st'. foldE (follow_step2 nl fi body i) [i + 1..<length body] st = Inr st'
      \<and> fset nts \<subseteq> dom (fst st')"
  proof (rule foldE_total[where P = "\<lambda>s. fset nts \<subseteq> dom (fst s)"])
    show "fset nts \<subseteq> dom (fst st)" by (rule assms(1))
  next
    fix x and s :: "symdict \<times> bool"
    assume x: "x \<in> set [i + 1..<length body]" and d: "fset nts \<subseteq> dom (fst s)"
    then have lt: "x < length body" by simp
    from follow_step2_total[OF d assms(2,3) lt assms(4) False assms(5)] obtain s'
      where s': "follow_step2 nl fi body i x s = Inr s'" by blast
    from follow_step2_grows[OF s' assms(2,3) lt] have "dom (fst s') = dom (fst s)"
      by (rule grows_dom)
    with s' d show "\<exists>s'. follow_step2 nl fi body i x s = Inr s' \<and> fset nts \<subseteq> dom (fst s')"
      by auto
  qed
  with False show ?thesis by (auto simp: follow_inner_def)
qed

lemma follow_rule_total:
  assumes "fset nts \<subseteq> dom (fst st)" and "r \<in> set g"
    and "syms g = fset ts \<union> fset nts" and "syms g \<subseteq> dom fi" and "fst ` set g \<subseteq> fset nts"
  shows "\<exists>st'. follow_rule ts nl fi r st = Inr st'"
proof -
  obtain head body where r: "r = (head, body)" by (cases r)
  with assms(2) have rule: "(head, body) \<in> set g" by simp
  with assms(5) have hn: "head |\<in>| nts" by force
  have "\<exists>st1. foldE (follow_step1 ts nl head body) [0..<length body] st = Inr st1
      \<and> fset nts \<subseteq> dom (fst st1)"
  proof (rule foldE_total[where P = "\<lambda>s. fset nts \<subseteq> dom (fst s)"])
    show "fset nts \<subseteq> dom (fst st)" by (rule assms(1))
  next
    fix x and s :: "symdict \<times> bool"
    assume x: "x \<in> set [0..<length body]" and d: "fset nts \<subseteq> dom (fst s)"
    then have lt: "x < length body" by simp
    from follow_step1_total[OF d rule lt assms(3) hn] obtain s'
      where s': "follow_step1 ts nl head body x s = Inr s'" by blast
    from follow_step1_grows[OF s' rule lt] have "dom (fst s') = dom (fst s)"
      by (rule grows_dom)
    with s' d
    show "\<exists>s'. follow_step1 ts nl head body x s = Inr s' \<and> fset nts \<subseteq> dom (fst s')"
      by auto
  qed
  then obtain st1
    where f1: "foldE (follow_step1 ts nl head body) [0..<length body] st = Inr st1"
      and d1: "fset nts \<subseteq> dom (fst st1)" by blast
  have "\<exists>st'. foldE (follow_inner ts nl fi body) [0..<length body - 1] st1 = Inr st'
      \<and> fset nts \<subseteq> dom (fst st')"
  proof (rule foldE_total[where P = "\<lambda>s. fset nts \<subseteq> dom (fst s)"])
    show "fset nts \<subseteq> dom (fst st1)" by (rule d1)
  next
    fix x and s :: "symdict \<times> bool"
    assume x: "x \<in> set [0..<length body - 1]" and d: "fset nts \<subseteq> dom (fst s)"
    then have lt: "x < length body" by simp
    from follow_inner_total[OF d rule lt assms(3,4)] obtain s'
      where s': "follow_inner ts nl fi body x s = Inr s'" by blast
    from follow_inner_grows[OF s' rule lt] have "dom (fst s') = dom (fst s)"
      by (rule grows_dom)
    with s' d
    show "\<exists>s'. follow_inner ts nl fi body x s = Inr s' \<and> fset nts \<subseteq> dom (fst s')"
      by auto
  qed
  with f1 r show ?thesis by (auto simp: follow_rule_def)
qed

lemma follow_pass_total:
  assumes "fset nts \<subseteq> dom (fst st)"
    and "syms g = fset ts \<union> fset nts" and "syms g \<subseteq> dom fi" and "fst ` set g \<subseteq> fset nts"
  shows "\<exists>st'. follow_pass g ts nl fi st = Inr st'"
proof -
  have "\<exists>st'. foldE (follow_rule ts nl fi) g st = Inr st' \<and> fset nts \<subseteq> dom (fst st')"
  proof (rule foldE_total[where P = "\<lambda>s. fset nts \<subseteq> dom (fst s)"])
    show "fset nts \<subseteq> dom (fst st)" by (rule assms(1))
  next
    fix x and s :: "symdict \<times> bool"
    assume x: "x \<in> set g" and d: "fset nts \<subseteq> dom (fst s)"
    from follow_rule_total[OF d x assms(2,3,4)] obtain s'
      where s': "follow_rule ts nl fi x s = Inr s'" by blast
    from follow_rule_grows[OF s' x] have "dom (fst s') = dom (fst s)" by (rule grows_dom)
    with s' d show "\<exists>s'. follow_rule ts nl fi x s = Inr s' \<and> fset nts \<subseteq> dom (fst s')"
      by auto
  qed
  then show ?thesis by (auto simp: follow_pass_def)
qed

lemma follow_loop_result:
  assumes "fset nts \<subseteq> dom d"
    and "syms g = fset ts \<union> fset nts" and "syms g \<subseteq> dom fi" and "fst ` set g \<subseteq> fset nts"
  shows "\<exists>d'. follow_loop g ts nl fi d = Inr d' \<and> ext (syms g) (univ (syms g) fi) d d'
           \<and> follow_pass g ts nl fi (d', False) = Inr (d', False)"
  using assms
proof (induction g ts nl fi d rule: follow_loop.induct)
  case (1 g ts nl fi d)
  from follow_pass_total[of nts "(d, False)" g ts fi nl] "1.prems"
  obtain d1 c1 where p: "follow_pass g ts nl fi (d, False) = Inr (d1, c1)" by auto
  from follow_pass_grows[OF p]
  have gr: "grows (syms g) (univ (syms g) fi) (d, False) (d1, c1)" .
  then have e: "ext (syms g) (univ (syms g) fi) d d1" and c: "c1 \<longleftrightarrow> d1 \<noteq> d"
    by (simp_all add: grows_def)
  show ?case
  proof (cases c1)
    case True
    from e "1.prems"(1) have "fset nts \<subseteq> dom d1" by (simp add: ext_def)
    from "1.IH"[OF p refl True this "1.prems"(2,3,4)] obtain d'
      where l: "follow_loop g ts nl fi d1 = Inr d'"
        and e': "ext (syms g) (univ (syms g) fi) d1 d'"
        and f: "follow_pass g ts nl fi (d', False) = Inr (d', False)" by blast
    from p True have "follow_loop g ts nl fi d = follow_loop g ts nl fi d1"
      by (subst follow_loop.simps) simp
    with l ext_trans[OF e e'] f show ?thesis by simp
  next
    case False
    with c have eq: "d1 = d" by simp
    from p False have "follow_loop g ts nl fi d = Inr d1" by (subst follow_loop.simps) simp
    with eq p False show ?thesis by (simp add: ext_refl)
  qed
qed

lemma follow_loop_inv:
  assumes "follow_loop g ts nl fi d = Inr d'" and "P d"
    and "\<And>u u' c. P u \<Longrightarrow> follow_pass g ts nl fi (u, False) = Inr (u', c) \<Longrightarrow> P u'"
  shows "P d'"
  using assms
proof (induction g ts nl fi d rule: follow_loop.induct)
  case (1 g ts nl fi d)
  from "1.prems"(1) obtain d1 c1 where p: "follow_pass g ts nl fi (d, False) = Inr (d1, c1)"
    by (subst (asm) follow_loop.simps) (auto split: sum.splits)
  from "1.prems"(3)[OF "1.prems"(2) p] have p1: "P d1" .
  show ?case
  proof (cases c1)
    case True
    with p "1.prems"(1) have l: "follow_loop g ts nl fi d1 = Inr d'"
      by (subst (asm) follow_loop.simps) simp
    show ?thesis by (rule "1.IH"[OF p refl True l p1]) (rule "1.prems"(3))
  next
    case False
    with p "1.prems"(1) have "d' = d1" by (subst (asm) follow_loop.simps) simp
    with p1 show ?thesis by simp
  qed
qed

lemma calculate_follow_result:
  assumes "find_terminals_and_nonterminals g = (ts, nts)" and "g \<noteq> []" and "syms g \<subseteq> dom fi"
  shows "\<exists>fo. calculate_follow ts nts g nl fi = Inr fo \<and> dom fo = fset nts
           \<and> follow_loop g ts nl fi (follow_init nts (fst (hd g))) = Inr fo
           \<and> ext (syms g) (univ (syms g) fi) (follow_init nts (fst (hd g))) fo
           \<and> follow_pass g ts nl fi (fo, False) = Inr (fo, False)"
proof -
  from assms(2) obtain start b rest where g: "g = (start, b) # rest"
    by (cases g) auto
  note sets = find_terminals_and_nonterminals_sets[OF assms(1)]
  from g sets have st: "start |\<in>| nts" by force
  then have dm: "dom (follow_init nts start) = fset nts"
    by (auto simp: follow_init_def dom_def)
  then have d0: "fset nts \<subseteq> dom (follow_init nts start)" by simp
  have hs: "fst ` set g \<subseteq> fset nts" using sets by simp
  from follow_loop_result[OF d0 syms_split[OF assms(1)] assms(3) hs, of nl] obtain fo
    where l: "follow_loop g ts nl fi (follow_init nts start) = Inr fo"
      and e: "ext (syms g) (univ (syms g) fi) (follow_init nts start) fo"
      and f: "follow_pass g ts nl fi (fo, False) = Inr (fo, False)" by blast
  from l g have "calculate_follow ts nts g nl fi = Inr fo"
    by (simp add: calculate_follow_def follow_init_def)
  moreover from e dm have "dom fo = fset nts" by (simp add: ext_def)
  ultimately show ?thesis using l e f g by auto
qed

subsection \<open>FIRST of a sequence, and calculate_select\<close>

lemma FIRST_seq_Nil: "FIRST_seq fi nl [] = {}"
  by (simp add: FIRST_seq_def)

lemma FIRST_seq_Cons:
  "FIRST_seq fi nl (x # xs) = vals fi x \<union> (if x |\<in>| nl then FIRST_seq fi nl xs else {})"
proof (cases "x |\<in>| nl")
  case True
  then show ?thesis unfolding FIRST_seq_def by (simp add: Un_assoc)
next
  case False
  then show ?thesis unfolding FIRST_seq_def by simp
qed

lemma select_walk_result:
  assumes "set body \<subseteq> dom fi"
  shows "\<exists>sel. select_walk fi nl body acc = Inr sel
           \<and> fset sel = fset acc \<union> FIRST_seq fi nl body"
  using assms
proof (induction body arbitrary: acc)
  case Nil
  then show ?case by (simp add: FIRST_seq_Nil)
next
  case (Cons item rest)
  from Cons.prems obtain xs where xs: "fi item = Some xs" by auto
  then have v: "vals fi item = fset xs" by (simp add: vals_def)
  show ?case
  proof (cases "item |\<in>| nl")
    case True
    from Cons.prems have "set rest \<subseteq> dom fi" by simp
    from Cons.IH[OF this, of "acc |\<union>| xs"] obtain sel
      where "select_walk fi nl rest (acc |\<union>| xs) = Inr sel"
        and "fset sel = fset (acc |\<union>| xs) \<union> FIRST_seq fi nl rest" by blast
    with True xs v show ?thesis by (auto simp: FIRST_seq_Cons)
  next
    case False
    with xs v show ?thesis by (auto simp: FIRST_seq_Cons)
  qed
qed

lemma select_rule_result:
  assumes "set (snd r) \<subseteq> dom fi" and "fst r \<in> dom fo"
  shows "\<exists>s. select_rule nl fi fo r m = Inr (m(r \<mapsto> s))
           \<and> fset s = SELECT_rule nl fi fo r"
proof -
  obtain head body where r: "r = (head, body)" by (cases r)
  from select_walk_result[of body fi nl "{||}"] assms(1) r obtain sel
    where w: "select_walk fi nl body {||} = Inr sel" and s: "fset sel = FIRST_seq fi nl body"
    by auto
  from assms(2) r obtain xs where xs: "fo head = Some xs" by auto
  show ?thesis
  proof (cases "is_nullable body nl")
    case True
    with w xs r have "select_rule nl fi fo r m = Inr (m(r \<mapsto> sel |\<union>| xs))"
      by (simp add: select_rule_def)
    moreover from True s xs r have "fset (sel |\<union>| xs) = SELECT_rule nl fi fo r"
      by (simp add: SELECT_rule_def is_nullable_iff vals_def)
    ultimately show ?thesis by blast
  next
    case False
    with w r have "select_rule nl fi fo r m = Inr (m(r \<mapsto> sel))"
      by (simp add: select_rule_def)
    moreover from False s r have "fset sel = SELECT_rule nl fi fo r"
      by (simp add: SELECT_rule_def is_nullable_iff)
    ultimately show ?thesis by blast
  qed
qed

lemma select_fold_result:
  assumes "\<forall>r\<in>set rs. set (snd r) \<subseteq> dom fi \<and> fst r \<in> dom fo"
  shows "\<exists>sel. foldE (select_rule nl fi fo) rs m = Inr sel
           \<and> (\<forall>r\<in>set rs. \<exists>s. sel r = Some s \<and> fset s = SELECT_rule nl fi fo r)
           \<and> (\<forall>r. r \<notin> set rs \<longrightarrow> sel r = m r)"
  using assms
proof (induction rs arbitrary: m)
  case Nil
  then show ?case by simp
next
  case (Cons r rs)
  from Cons.prems have "set (snd r) \<subseteq> dom fi" and "fst r \<in> dom fo" by simp_all
  from select_rule_result[OF this, of nl m] obtain s
    where st: "select_rule nl fi fo r m = Inr (m(r \<mapsto> s))"
      and s: "fset s = SELECT_rule nl fi fo r" by blast
  from Cons.prems have "\<forall>r\<in>set rs. set (snd r) \<subseteq> dom fi \<and> fst r \<in> dom fo" by simp
  from Cons.IH[OF this, of "m(r \<mapsto> s)"] obtain sel
    where f: "foldE (select_rule nl fi fo) rs (m(r \<mapsto> s)) = Inr sel"
      and a: "\<forall>r\<in>set rs. \<exists>s. sel r = Some s \<and> fset s = SELECT_rule nl fi fo r"
      and b: "\<forall>q. q \<notin> set rs \<longrightarrow> sel q = (m(r \<mapsto> s)) q" by blast
  have "\<exists>s'. sel r = Some s' \<and> fset s' = SELECT_rule nl fi fo r"
  proof (cases "r \<in> set rs")
    case True
    with a show ?thesis by blast
  next
    case False
    from b[rule_format, OF False] have "sel r = Some s" by simp
    with s show ?thesis by blast
  qed
  with a have "\<forall>q\<in>set (r # rs). \<exists>s. sel q = Some s \<and> fset s = SELECT_rule nl fi fo q"
    by simp
  moreover from b have "\<forall>q. q \<notin> set (r # rs) \<longrightarrow> sel q = m q" by simp
  moreover from st f have "foldE (select_rule nl fi fo) (r # rs) m = Inr sel" by simp
  ultimately show ?case by blast
qed

lemma calculate_select_result:
  assumes "syms g \<subseteq> dom fi" and "fst ` set g \<subseteq> dom fo"
  shows "\<exists>sel. calculate_select ts nts g nl fi fo = Inr sel
           \<and> (\<forall>r\<in>set g. \<exists>s. sel r = Some s \<and> fset s = SELECT_rule nl fi fo r)"
proof -
  have "\<forall>r\<in>set g. set (snd r) \<subseteq> dom fi \<and> fst r \<in> dom fo"
  proof
    fix r assume r: "r \<in> set g"
    then have "set (snd r) \<subseteq> syms g" by (auto simp: syms_def)
    with assms r show "set (snd r) \<subseteq> dom fi \<and> fst r \<in> dom fo" by auto
  qed
  from select_fold_result[OF this, of nl Map.empty] show ?thesis
    by (auto simp: calculate_select_def simp del: foldE.simps)
qed

subsection \<open>The scan of is_LL1\<close>

lemma ll1_step_result:
  assumes "g ! i \<in> dom sel" and "g ! j \<in> dom sel"
  shows "ll1_step sel g i j b = Inr (b \<and> \<not> conflict sel g i j)"
proof -
  from assms obtain s1 s2 where s: "sel (g ! i) = Some s1" "sel (g ! j) = Some s2" by auto
  have "s1 |\<inter>| s2 \<noteq> {||} \<longleftrightarrow> fset s1 \<inter> fset s2 \<noteq> {}" by auto
  with s show ?thesis by (auto simp: ll1_step_def conflict_def select_set_def Let_def)
qed

lemma ll1_inner_result:
  assumes "g ! i \<in> dom sel" and "\<forall>j\<in>set js. g ! j \<in> dom sel"
  shows "foldE (ll1_step sel g i) js b = Inr (b \<and> (\<forall>j\<in>set js. \<not> conflict sel g i j))"
  using assms(2)
proof (induction js arbitrary: b)
  case Nil
  then show ?case by simp
next
  case (Cons j js)
  from Cons.prems have "g ! j \<in> dom sel" by simp
  from ll1_step_result[OF assms(1) this]
  have "ll1_step sel g i j b = Inr (b \<and> \<not> conflict sel g i j)" .
  moreover from Cons.prems have "\<forall>j\<in>set js. g ! j \<in> dom sel" by simp
  from Cons.IH[OF this, of "b \<and> \<not> conflict sel g i j"]
  have "foldE (ll1_step sel g i) js (b \<and> \<not> conflict sel g i j)
      = Inr ((b \<and> \<not> conflict sel g i j) \<and> (\<forall>j\<in>set js. \<not> conflict sel g i j))" .
  ultimately show ?case by auto
qed

lemma ll1_outer_result:
  assumes "\<forall>i<n. g ! i \<in> dom sel" and "\<forall>i\<in>set is. i < n"
  shows "foldE (\<lambda>i. foldE (ll1_step sel g i) [i + 1..<n]) is b
           = Inr (b \<and> (\<forall>i\<in>set is. \<forall>j\<in>set [i + 1..<n]. \<not> conflict sel g i j))"
  using assms(2)
proof (induction "is" arbitrary: b)
  case Nil
  then show ?case by simp
next
  case (Cons i "is")
  from Cons.prems assms(1) have "g ! i \<in> dom sel" by simp
  moreover from assms(1) have "\<forall>j\<in>set [i + 1..<n]. g ! j \<in> dom sel" by simp
  ultimately have "foldE (ll1_step sel g i) [i + 1..<n] b
      = Inr (b \<and> (\<forall>j\<in>set [i + 1..<n]. \<not> conflict sel g i j))"
    by (rule ll1_inner_result)
  moreover from Cons.prems have "\<forall>i\<in>set is. i < n" by simp
  from Cons.IH[OF this, of "b \<and> (\<forall>j\<in>set [i + 1..<n]. \<not> conflict sel g i j)"]
  have "foldE (\<lambda>i. foldE (ll1_step sel g i) [i + 1..<n]) is
          (b \<and> (\<forall>j\<in>set [i + 1..<n]. \<not> conflict sel g i j))
      = Inr ((b \<and> (\<forall>j\<in>set [i + 1..<n]. \<not> conflict sel g i j))
            \<and> (\<forall>i\<in>set is. \<forall>j\<in>set [i + 1..<n]. \<not> conflict sel g i j))" .
  ultimately show ?case by auto
qed

lemma ll1_scan_result:
  assumes "set g \<subseteq> dom sel"
  shows "ll1_scan sel g
           = Inr (\<not> (\<exists>i j. i < j \<and> j < length g \<and> conflict sel g i j))"
proof -
  from assms have d: "\<forall>i<length g. g ! i \<in> dom sel" using nth_mem by blast
  have "ll1_scan sel g
      = Inr (True \<and> (\<forall>i\<in>set [0..<length g]. \<forall>j\<in>set [i + 1..<length g].
               \<not> conflict sel g i j))"
    unfolding ll1_scan_def by (rule ll1_outer_result[OF d]) simp
  moreover have "(\<forall>i\<in>set [0..<length g]. \<forall>j\<in>set [i + 1..<length g]. \<not> conflict sel g i j)
      \<longleftrightarrow> \<not> (\<exists>i j. i < j \<and> j < length g \<and> conflict sel g i j)"
    by (auto simp: Suc_le_eq)
  ultimately show ?thesis by simp
qed

subsection \<open>The whole pipeline on a nonempty grammar\<close>

lemma pipeline_result:
  assumes "find_terminals_and_nonterminals g = (ts, nts)" and "g \<noteq> []"
  shows "\<exists>fi fo sel.
           calculate_first ts nts g (calculate_nullable ts nts g) = Inr fi
         \<and> calculate_follow ts nts g (calculate_nullable ts nts g) fi = Inr fo
         \<and> calculate_select ts nts g (calculate_nullable ts nts g) fi fo = Inr sel
         \<and> grammar_select g = Inr sel
         \<and> (\<forall>r\<in>set g. \<exists>s. sel r = Some s
               \<and> fset s = SELECT_rule (calculate_nullable ts nts g) fi fo r)"
proof -
  let ?nl = "calculate_nullable ts nts g"
  from calculate_first_result[OF assms(1), of ?nl] obtain fi
    where fi: "calculate_first ts nts g ?nl = Inr fi" and dfi: "dom fi = syms g" by blast
  then have sub: "syms g \<subseteq> dom fi" by simp
  from calculate_follow_result[OF assms sub, of ?nl] obtain fo
    where fo: "calculate_follow ts nts g ?nl fi = Inr fo" and dfo: "dom fo = fset nts"
    by blast
  from dfo find_terminals_and_nonterminals_sets(1)[OF assms(1)]
  have "fst ` set g \<subseteq> dom fo" by simp
  from calculate_select_result[OF sub this, of ts nts ?nl] obtain sel
    where sel: "calculate_select ts nts g ?nl fi fo = Inr sel"
      and v: "\<forall>r\<in>set g. \<exists>s. sel r = Some s \<and> fset s = SELECT_rule ?nl fi fo r" by blast
  from assms(1) fi fo sel have "grammar_select g = Inr sel"
    by (simp add: grammar_select_def Let_def)
  with fi fo sel v show ?thesis by blast
qed

subsection \<open>FIRST of a sequence, by positions\<close>

lemma FIRST_seq_nth:
  assumes "j < length bs" and "is_nullable (take j bs) nl"
  shows "vals fi (bs ! j) \<subseteq> FIRST_seq fi nl bs"
  using assms
proof (induction bs arbitrary: j)
  case Nil
  then show ?case by simp
next
  case (Cons b bs)
  show ?case
  proof (cases j)
    case 0
    then show ?thesis by (simp add: FIRST_seq_Cons)
  next
    case (Suc k)
    with Cons.prems have k: "k < length bs" and b: "b |\<in>| nl"
      and n: "is_nullable (take k bs) nl" by (auto split: if_splits)
    from Cons.IH[OF k n] Suc b show ?thesis by (auto simp: FIRST_seq_Cons)
  qed
qed

lemma FIRST_seq_elem:
  assumes "x \<in> FIRST_seq fi nl bs"
  shows "\<exists>j<length bs. is_nullable (take j bs) nl \<and> x \<in> vals fi (bs ! j)"
  using assms
proof (induction bs)
  case Nil
  then show ?case by (simp add: FIRST_seq_Nil)
next
  case (Cons b bs)
  show ?case
  proof (cases "x \<in> vals fi b")
    case True
    then have "0 < length (b # bs) \<and> is_nullable (take 0 (b # bs)) nl
        \<and> x \<in> vals fi ((b # bs) ! 0)" by simp
    then show ?thesis by blast
  next
    case False
    with Cons.prems have b: "b |\<in>| nl" and "x \<in> FIRST_seq fi nl bs"
      by (auto simp: FIRST_seq_Cons split: if_splits)
    from Cons.IH[OF this(2)] obtain k where "k < length bs"
      and "is_nullable (take k bs) nl" and "x \<in> vals fi (bs ! k)" by blast
    with b have "Suc k < length (b # bs) \<and> is_nullable (take (Suc k) (b # bs)) nl
        \<and> x \<in> vals fi ((b # bs) ! Suc k)" by simp
    then show ?thesis by blast
  qed
qed

subsection \<open>FOLLOW as a least solution\<close>

lemma follow_constraintsD:
  assumes "follow_constraints g nts nl fi F" and "(A, body) \<in> set g" and "i < length body"
    and "body ! i |\<in>| nts"
  shows "FIRST_seq fi nl (drop (i + 1) body) \<subseteq> F (body ! i)"
    and "set (drop (i + 1) body) \<subseteq> fset nl \<Longrightarrow> F A \<subseteq> F (body ! i)"
proof -
  from assms(1) have "\<forall>r\<in>set g. case r of (A, body) \<Rightarrow> \<forall>i<length body. body ! i |\<in>| nts \<longrightarrow>
        FIRST_seq fi nl (drop (i + 1) body) \<subseteq> F (body ! i) \<and>
        (set (drop (i + 1) body) \<subseteq> fset nl \<longrightarrow> F A \<subseteq> F (body ! i))"
    by (simp add: follow_constraints_def)
  from bspec[OF this assms(2)] assms(3,4)
  have c: "FIRST_seq fi nl (drop (i + 1) body) \<subseteq> F (body ! i) \<and>
        (set (drop (i + 1) body) \<subseteq> fset nl \<longrightarrow> F A \<subseteq> F (body ! i))" by simp
  from c show "FIRST_seq fi nl (drop (i + 1) body) \<subseteq> F (body ! i)" by simp
  from c show "set (drop (i + 1) body) \<subseteq> fset nl \<Longrightarrow> F A \<subseteq> F (body ! i)" by simp
qed

lemma follow_step1_below:
  assumes "follow_step1 ts nl head body i st = Inr st'" and "\<forall>k. vals (fst st) k \<subseteq> F k"
    and "(head, body) \<in> set g" and "i < length body"
    and "follow_constraints g nts nl fi F" and "syms g = fset ts \<union> fset nts"
  shows "\<forall>k. vals (fst st') k \<subseteq> F k"
proof (cases "body ! i |\<notin>| ts \<and> is_nullable (drop (i + 1) body) nl")
  case True
  obtain d c where st: "st = (d, c)" by (cases st)
  obtain d' c' where st': "st' = (d', c')" by (cases st')
  from True assms(1) st st' obtain items where it: "d head = Some items"
    and a: "add_items (body ! i) items (d, c) = Inr (d', c')"
    by (auto simp: follow_step1_def split: option.splits)
  from body_in_syms[OF assms(3,4)] assms(6) True have nt: "body ! i |\<in>| nts" by auto
  from True have "set (drop (i + 1) body) \<subseteq> fset nl" by (simp add: is_nullable_iff)
  then have "F head \<subseteq> F (body ! i)"
    by (rule follow_constraintsD(2)[OF assms(5,3,4) nt])
  moreover from it assms(2) st have "fset items \<subseteq> F head" by (force simp: vals_def)
  ultimately have sub: "fset items \<subseteq> F (body ! i)" by blast
  from assms(2) st have p: "\<forall>k. vals d k \<subseteq> F k" by simp
  from add_items_below[OF a p sub] st' show ?thesis by simp
next
  case False
  with assms(1) have "st' = st" by (auto simp: follow_step1_def split: if_splits)
  with assms(2) show ?thesis by simp
qed

lemma follow_step2_below:
  assumes "follow_step2 nl fi body i j st = Inr st'" and "\<forall>k. vals (fst st) k \<subseteq> F k"
    and "(head, body) \<in> set g" and "i < j" and "j < length body"
    and "follow_constraints g nts nl fi F" and "body ! i |\<in>| nts"
  shows "\<forall>k. vals (fst st') k \<subseteq> F k"
proof (cases "is_nullable (take (j - (i + 1)) (drop (i + 1) body)) nl")
  case True
  obtain d c where st: "st = (d, c)" by (cases st)
  obtain d' c' where st': "st' = (d', c')" by (cases st')
  from True assms(1) st st' obtain items where it: "fi (body ! j) = Some items"
    and a: "add_items (body ! i) items (d, c) = Inr (d', c')"
    by (auto simp: follow_step2_def split: option.splits)
  from assms(4,5) have lt: "j - (i + 1) < length (drop (i + 1) body)"
    and nth: "drop (i + 1) body ! (j - (i + 1)) = body ! j" by auto
  from FIRST_seq_nth[OF lt True, of fi] nth
  have "vals fi (body ! j) \<subseteq> FIRST_seq fi nl (drop (i + 1) body)" by simp
  moreover from assms(4,5) have "i < length body" by simp
  from follow_constraintsD(1)[OF assms(6,3) this assms(7)]
  have "FIRST_seq fi nl (drop (i + 1) body) \<subseteq> F (body ! i)" .
  moreover from it have "fset items = vals fi (body ! j)" by (simp add: vals_def)
  ultimately have sub: "fset items \<subseteq> F (body ! i)" by blast
  from assms(2) st have p: "\<forall>k. vals d k \<subseteq> F k" by simp
  from add_items_below[OF a p sub] st' show ?thesis by simp
next
  case False
  with assms(1) have "st' = st" by (simp add: follow_step2_def)
  with assms(2) show ?thesis by simp
qed

lemma follow_inner_below:
  assumes "follow_inner ts nl fi body i st = Inr st'" and "\<forall>k. vals (fst st) k \<subseteq> F k"
    and "(head, body) \<in> set g" and "i < length body"
    and "follow_constraints g nts nl fi F" and "syms g = fset ts \<union> fset nts"
  shows "\<forall>k. vals (fst st') k \<subseteq> F k"
proof (cases "body ! i |\<in>| ts")
  case True
  with assms(1) have "st' = st" by (simp add: follow_inner_def)
  with assms(2) show ?thesis by simp
next
  case False
  with assms(1)
  have f: "foldE (follow_step2 nl fi body i) [i + 1..<length body] st = Inr st'"
    by (simp add: follow_inner_def)
  from body_in_syms[OF assms(3,4)] assms(6) False have nt: "body ! i |\<in>| nts" by auto
  show ?thesis
  proof (rule foldE_inv[OF f, where P = "\<lambda>s. \<forall>k. vals (fst s) k \<subseteq> F k"])
    show "\<forall>k. vals (fst st) k \<subseteq> F k" by (rule assms(2))
  next
    fix x and s s' :: "symdict \<times> bool"
    assume x: "x \<in> set [i + 1..<length body]" and p: "\<forall>k. vals (fst s) k \<subseteq> F k"
      and s': "follow_step2 nl fi body i x s = Inr s'"
    from x have "i < x" and "x < length body" by simp_all
    from follow_step2_below[OF s' p assms(3) this assms(5) nt]
    show "\<forall>k. vals (fst s') k \<subseteq> F k" .
  qed
qed

lemma follow_rule_below:
  assumes "follow_rule ts nl fi r st = Inr st'" and "\<forall>k. vals (fst st) k \<subseteq> F k"
    and "r \<in> set g" and "follow_constraints g nts nl fi F"
    and "syms g = fset ts \<union> fset nts"
  shows "\<forall>k. vals (fst st') k \<subseteq> F k"
proof -
  obtain head body where r: "r = (head, body)" by (cases r)
  with assms(3) have rule: "(head, body) \<in> set g" by simp
  from assms(1) r obtain st1
    where f1: "foldE (follow_step1 ts nl head body) [0..<length body] st = Inr st1"
      and f2: "foldE (follow_inner ts nl fi body) [0..<length body - 1] st1 = Inr st'"
    by (auto simp: follow_rule_def split: sum.splits)
  have p1: "\<forall>k. vals (fst st1) k \<subseteq> F k"
  proof (rule foldE_inv[OF f1, where P = "\<lambda>s. \<forall>k. vals (fst s) k \<subseteq> F k"])
    show "\<forall>k. vals (fst st) k \<subseteq> F k" by (rule assms(2))
  next
    fix x and s s' :: "symdict \<times> bool"
    assume x: "x \<in> set [0..<length body]" and p: "\<forall>k. vals (fst s) k \<subseteq> F k"
      and s': "follow_step1 ts nl head body x s = Inr s'"
    from x have "x < length body" by simp
    from follow_step1_below[OF s' p rule this assms(4,5)]
    show "\<forall>k. vals (fst s') k \<subseteq> F k" .
  qed
  show ?thesis
  proof (rule foldE_inv[OF f2, where P = "\<lambda>s. \<forall>k. vals (fst s) k \<subseteq> F k"])
    show "\<forall>k. vals (fst st1) k \<subseteq> F k" by (rule p1)
  next
    fix x and s s' :: "symdict \<times> bool"
    assume x: "x \<in> set [0..<length body - 1]" and p: "\<forall>k. vals (fst s) k \<subseteq> F k"
      and s': "follow_inner ts nl fi body x s = Inr s'"
    from x have "x < length body" by simp
    from follow_inner_below[OF s' p rule this assms(4,5)]
    show "\<forall>k. vals (fst s') k \<subseteq> F k" .
  qed
qed

lemma follow_pass_below:
  assumes "follow_pass g ts nl fi st = Inr st'" and "\<forall>k. vals (fst st) k \<subseteq> F k"
    and "follow_constraints g nts nl fi F" and "syms g = fset ts \<union> fset nts"
  shows "\<forall>k. vals (fst st') k \<subseteq> F k"
proof -
  from assms(1) have f: "foldE (follow_rule ts nl fi) g st = Inr st'"
    by (simp add: follow_pass_def)
  show ?thesis
  proof (rule foldE_inv[OF f, where P = "\<lambda>s. \<forall>k. vals (fst s) k \<subseteq> F k"])
    show "\<forall>k. vals (fst st) k \<subseteq> F k" by (rule assms(2))
  next
    fix x and s s' :: "symdict \<times> bool"
    assume x: "x \<in> set g" and p: "\<forall>k. vals (fst s) k \<subseteq> F k"
      and s': "follow_rule ts nl fi x s = Inr s'"
    from follow_rule_below[OF s' p x assms(3,4)] show "\<forall>k. vals (fst s') k \<subseteq> F k" .
  qed
qed

lemma follow_step1_fixed:
  assumes "follow_step1 ts nl head body i (d, c) = Inr (d, c)" and "body ! i |\<notin>| ts"
    and "is_nullable (drop (i + 1) body) nl"
  shows "vals d head \<subseteq> vals d (body ! i)"
proof (cases "d head")
  case None
  then show ?thesis by (simp add: vals_def)
next
  case (Some items)
  with assms have "add_items (body ! i) items (d, c) = Inr (d, c)"
    by (simp add: follow_step1_def)
  from add_items_fixed[OF this] Some show ?thesis by (simp add: vals_def)
qed

lemma follow_step2_fixed:
  assumes "follow_step2 nl fi body i j (d, c) = Inr (d, c)"
    and "is_nullable (take (j - (i + 1)) (drop (i + 1) body)) nl"
  shows "vals fi (body ! j) \<subseteq> vals d (body ! i)"
proof (cases "fi (body ! j)")
  case None
  then show ?thesis by (simp add: vals_def)
next
  case (Some items)
  with assms have "add_items (body ! i) items (d, c) = Inr (d, c)"
    by (simp add: follow_step2_def)
  from add_items_fixed[OF this] Some show ?thesis by (simp add: vals_def)
qed

lemma follow_pass_fixed_rule:
  assumes "follow_pass g ts nl fi (d, False) = Inr (d, False)" and "(head, body) \<in> set g"
  shows "\<forall>i<length body. follow_step1 ts nl head body i (d, False) = Inr (d, False)"
    and "\<forall>i<length body - 1. follow_inner ts nl fi body i (d, False) = Inr (d, False)"
proof -
  let ?X = "univ (syms g) fi"
  from assms(1) have f: "foldE (follow_rule ts nl fi) g (d, False) = Inr (d, False)"
    by (simp add: follow_pass_def)
  have "\<forall>r\<in>set g. follow_rule ts nl fi r (d, False) = Inr (d, False)"
  proof (rule foldE_fixed[OF f])
    fix x and u u' :: "symdict \<times> bool"
    assume "x \<in> set g" and "follow_rule ts nl fi x u = Inr u'"
    then show "grows (syms g) ?X u u'" by (rule follow_rule_grows[rotated])
  qed
  with assms(2) have "follow_rule ts nl fi (head, body) (d, False) = Inr (d, False)" by blast
  then obtain st1
    where f1: "foldE (follow_step1 ts nl head body) [0..<length body] (d, False) = Inr st1"
      and f2: "foldE (follow_inner ts nl fi body) [0..<length body - 1] st1 = Inr (d, False)"
    by (auto simp: follow_rule_def split: sum.splits)
  have g1: "grows (syms g) ?X u u'"
    if "x \<in> set [0..<length body]" and "follow_step1 ts nl head body x u = Inr u'"
    for x u u'
  proof -
    from that(1) have "x < length body" by simp
    from follow_step1_grows[OF that(2) assms(2) this] show ?thesis .
  qed
  have g2: "grows (syms g) ?X u u'"
    if "x \<in> set [0..<length body - 1]" and "follow_inner ts nl fi body x u = Inr u'"
    for x u u'
  proof -
    from that(1) have "x < length body" by simp
    from follow_inner_grows[OF that(2) assms(2) this] show ?thesis .
  qed
  have "grows (syms g) ?X (d, False) st1"
  proof (rule foldE_grows[OF _ f1])
    fix x and u u' :: "symdict \<times> bool"
    assume "x \<in> set [0..<length body]" and "follow_step1 ts nl head body x u = Inr u'"
    then show "grows (syms g) ?X u u'" by (rule g1)
  qed
  moreover have "grows (syms g) ?X st1 (d, False)"
  proof (rule foldE_grows[OF _ f2])
    fix x and u u' :: "symdict \<times> bool"
    assume "x \<in> set [0..<length body - 1]" and "follow_inner ts nl fi body x u = Inr u'"
    then show "grows (syms g) ?X u u'" by (rule g2)
  qed
  ultimately have eq: "st1 = (d, False)" by (rule grows_antisym)
  have "\<forall>i\<in>set [0..<length body].
      follow_step1 ts nl head body i (d, False) = Inr (d, False)"
  proof (rule foldE_fixed[where K = "syms g" and X = ?X])
    show "foldE (follow_step1 ts nl head body) [0..<length body] (d, False) = Inr (d, False)"
      using f1 eq by simp
  next
    fix x and u u' :: "symdict \<times> bool"
    assume "x \<in> set [0..<length body]" and "follow_step1 ts nl head body x u = Inr u'"
    then show "grows (syms g) ?X u u'" by (rule g1)
  qed
  then show "\<forall>i<length body. follow_step1 ts nl head body i (d, False) = Inr (d, False)"
    by simp
  have "\<forall>i\<in>set [0..<length body - 1].
      follow_inner ts nl fi body i (d, False) = Inr (d, False)"
  proof (rule foldE_fixed[where K = "syms g" and X = ?X])
    show "foldE (follow_inner ts nl fi body) [0..<length body - 1] (d, False)
        = Inr (d, False)" using f2 eq by simp
  next
    fix x and u u' :: "symdict \<times> bool"
    assume "x \<in> set [0..<length body - 1]" and "follow_inner ts nl fi body x u = Inr u'"
    then show "grows (syms g) ?X u u'" by (rule g2)
  qed
  then show "\<forall>i<length body - 1. follow_inner ts nl fi body i (d, False) = Inr (d, False)"
    by simp
qed

lemma follow_inner_fixed_steps:
  assumes "follow_inner ts nl fi body i (d, False) = Inr (d, False)" and "body ! i |\<notin>| ts"
    and "(head, body) \<in> set (g :: grammar)" and "i < length body"
  shows "\<forall>j\<in>set [i + 1..<length body].
           follow_step2 nl fi body i j (d, False) = Inr (d, False)"
proof -
  from assms(1,2)
  have f: "foldE (follow_step2 nl fi body i) [i + 1..<length body] (d, False)
      = Inr (d, False)" by (simp add: follow_inner_def)
  show ?thesis
  proof (rule foldE_fixed[OF f])
    fix x and u u' :: "symdict \<times> bool"
    assume x: "x \<in> set [i + 1..<length body]"
      and s: "follow_step2 nl fi body i x u = Inr u'"
    from x have "x < length body" by simp
    from follow_step2_grows[OF s assms(3,4) this]
    show "grows (syms g) (univ (syms g) fi) u u'" .
  qed
qed

lemma follow_pass_fixed_constraints:
  assumes "follow_pass g ts nl fi (d, False) = Inr (d, False)"
    and "fset ts \<inter> fset nts = {}" and "(head, body) \<in> set g" and "i < length body"
    and "body ! i |\<in>| nts"
  shows "FIRST_seq fi nl (drop (i + 1) body) \<subseteq> vals d (body ! i)"
    and "set (drop (i + 1) body) \<subseteq> fset nl \<Longrightarrow> vals d head \<subseteq> vals d (body ! i)"
proof -
  from assms(2,5) have nt: "body ! i |\<notin>| ts" by auto
  note fx = follow_pass_fixed_rule[OF assms(1,3)]
  show "FIRST_seq fi nl (drop (i + 1) body) \<subseteq> vals d (body ! i)"
  proof
    fix x assume "x \<in> FIRST_seq fi nl (drop (i + 1) body)"
    from FIRST_seq_elem[OF this] obtain k where k: "k < length (drop (i + 1) body)"
      and n: "is_nullable (take k (drop (i + 1) body)) nl"
      and x: "x \<in> vals fi (drop (i + 1) body ! k)" by blast
    let ?j = "i + 1 + k"
    from k have j: "?j < length body" by simp
    then have i1: "i < length body - 1" by simp
    from k x have xj: "x \<in> vals fi (body ! ?j)" by simp
    from fx(2) i1 have "follow_inner ts nl fi body i (d, False) = Inr (d, False)" by blast
    from follow_inner_fixed_steps[OF this nt assms(3,4)] j
    have "follow_step2 nl fi body i ?j (d, False) = Inr (d, False)" by simp
    moreover from n have "is_nullable (take (?j - (i + 1)) (drop (i + 1) body)) nl" by simp
    ultimately have "vals fi (body ! ?j) \<subseteq> vals d (body ! i)" by (rule follow_step2_fixed)
    with xj show "x \<in> vals d (body ! i)" by blast
  qed
  show "vals d head \<subseteq> vals d (body ! i)" if "set (drop (i + 1) body) \<subseteq> fset nl"
  proof -
    from that have n: "is_nullable (drop (i + 1) body) nl" by (simp add: is_nullable_iff)
    from fx(1) assms(4) have "follow_step1 ts nl head body i (d, False) = Inr (d, False)"
      by blast
    from follow_step1_fixed[OF this nt n] show ?thesis .
  qed
qed

lemma calculate_follow_least_solution:
  assumes "find_terminals_and_nonterminals g = (ts, nts)" and "g \<noteq> []"
    and "syms g \<subseteq> dom fi" and "\<forall>k. vals fi k \<subseteq> fset ts"
  shows "\<exists>fo. calculate_follow ts nts g nl fi = Inr fo \<and> dom fo = fset nts
           \<and> (\<forall>B. vals fo B \<subseteq> fset ts \<union> {EOF})
           \<and> follow_constraints g nts nl fi (vals fo)
           \<and> (\<forall>F. follow_constraints g nts nl fi F \<longrightarrow> (\<forall>B. vals fo B \<subseteq> F B))"
proof -
  let ?d0 = "follow_init nts (fst (hd g))"
  let ?X = "univ (syms g) fi"
  note sets = find_terminals_and_nonterminals_sets[OF assms(1)]
  have split: "syms g = fset ts \<union> fset nts" by (rule syms_split[OF assms(1)])
  from sets have disj: "fset ts \<inter> fset nts = {}" by auto
  from assms(2) have hd: "hd g \<in> set g" by simp
  then have start: "fst (hd g) |\<in>| nts" using sets by auto
  from calculate_follow_result[OF assms(1,2,3), of nl] obtain fo
    where cf: "calculate_follow ts nts g nl fi = Inr fo" and dm: "dom fo = fset nts"
      and l: "follow_loop g ts nl fi ?d0 = Inr fo"
      and e: "ext (syms g) ?X ?d0 fo"
      and fx: "follow_pass g ts nl fi (fo, False) = Inr (fo, False)" by blast
  have v0: "vals ?d0 k = (if k = fst (hd g) then {EOF} else {})" for k
    by (simp add: follow_init_def vals_def)
  have terms: "vals fo B \<subseteq> fset ts \<union> {EOF}" for B
  proof (cases "B \<in> syms g")
    case True
    with e have "vals fo B \<subseteq> univ (syms g) ?d0 \<union> ?X" by (simp add: ext_def)
    moreover have "univ (syms g) ?d0 \<subseteq> {EOF}" by (auto simp: univ_def v0 split: if_splits)
    moreover from assms(4) have "?X \<subseteq> fset ts" by (auto simp: univ_def)
    ultimately show ?thesis by blast
  next
    case False
    with e have "fo B = ?d0 B" by (simp add: ext_def)
    moreover from False split start have "B \<noteq> fst (hd g)" and "B |\<notin>| nts" by auto
    ultimately show ?thesis by (simp add: follow_init_def vals_def)
  qed
  from e have "vals ?d0 (fst (hd g)) \<subseteq> vals fo (fst (hd g))" by (simp add: ext_def)
  then have eof: "EOF \<in> vals fo (fst (hd g))" by (simp add: v0)
  have "\<forall>r\<in>set g. case r of (A, body) \<Rightarrow> \<forall>i<length body. body ! i |\<in>| nts \<longrightarrow>
        FIRST_seq fi nl (drop (i + 1) body) \<subseteq> vals fo (body ! i) \<and>
        (set (drop (i + 1) body) \<subseteq> fset nl \<longrightarrow> vals fo A \<subseteq> vals fo (body ! i))"
  proof (intro ballI)
    fix r assume r: "r \<in> set g"
    obtain A body where ab: "r = (A, body)" by (cases r)
    with r have rule: "(A, body) \<in> set g" by simp
    have "\<forall>i<length body. body ! i |\<in>| nts \<longrightarrow>
        FIRST_seq fi nl (drop (i + 1) body) \<subseteq> vals fo (body ! i) \<and>
        (set (drop (i + 1) body) \<subseteq> fset nl \<longrightarrow> vals fo A \<subseteq> vals fo (body ! i))"
      using follow_pass_fixed_constraints[OF fx disj rule] by blast
    with ab show "case r of (A, body) \<Rightarrow> \<forall>i<length body. body ! i |\<in>| nts \<longrightarrow>
        FIRST_seq fi nl (drop (i + 1) body) \<subseteq> vals fo (body ! i) \<and>
        (set (drop (i + 1) body) \<subseteq> fset nl \<longrightarrow> vals fo A \<subseteq> vals fo (body ! i))"
      by simp
  qed
  with eof have closed: "follow_constraints g nts nl fi (vals fo)"
    by (simp add: follow_constraints_def)
  have least: "\<forall>B. vals fo B \<subseteq> F B" if c: "follow_constraints g nts nl fi F" for F
  proof (rule follow_loop_inv[OF l, where P = "\<lambda>d. \<forall>B. vals d B \<subseteq> F B"])
    from c have "EOF \<in> F (fst (hd g))" by (simp add: follow_constraints_def)
    then show "\<forall>B. vals ?d0 B \<subseteq> F B" by (simp add: v0)
  next
    fix u u' :: symdict and cc :: bool
    assume p: "\<forall>B. vals u B \<subseteq> F B"
      and s: "follow_pass g ts nl fi (u, False) = Inr (u', cc)"
    from follow_pass_below[OF s _ c split, of ] p show "\<forall>B. vals u' B \<subseteq> F B" by simp
  qed
  from cf dm terms closed least show ?thesis by blast
qed

section \<open>The claims\<close>

subsection \<open>Claim C1\<close>

text \<open>
  Claim C1. For every rule \<open>(A, alpha)\<close> of a grammar, with the nullable set, FIRST and
  FOLLOW computed from the same grammar, \<open>calculate_select\<close> returns a mapping whose value
  at the rule is FIRST(alpha), united with FOLLOW(A) when every symbol of alpha is
  nullable (the empty body included).
\<close>

theorem C1_select_is_first_and_follow:
  assumes "find_terminals_and_nonterminals g = (ts, nts)" and "(A, alpha) \<in> set g"
  shows "\<exists>fi fo sel s.
           calculate_first ts nts g (calculate_nullable ts nts g) = Inr fi
         \<and> calculate_follow ts nts g (calculate_nullable ts nts g) fi = Inr fo
         \<and> calculate_select ts nts g (calculate_nullable ts nts g) fi fo = Inr sel
         \<and> sel (A, alpha) = Some s
         \<and> fset s = FIRST_seq fi (calculate_nullable ts nts g) alpha
              \<union> (if set alpha \<subseteq> fset (calculate_nullable ts nts g)
                 then vals fo A else {})"
proof -
  from assms(2) have "g \<noteq> []" by auto
  from pipeline_result[OF assms(1) this] obtain fi fo sel
    where fi: "calculate_first ts nts g (calculate_nullable ts nts g) = Inr fi"
      and fo: "calculate_follow ts nts g (calculate_nullable ts nts g) fi = Inr fo"
      and se: "calculate_select ts nts g (calculate_nullable ts nts g) fi fo = Inr sel"
      and v: "\<forall>r\<in>set g. \<exists>s. sel r = Some s
               \<and> fset s = SELECT_rule (calculate_nullable ts nts g) fi fo r" by blast
  from v assms(2) obtain s where "sel (A, alpha) = Some s"
    and "fset s = SELECT_rule (calculate_nullable ts nts g) fi fo (A, alpha)" by blast
  with fi fo se show ?thesis by (auto simp: SELECT_rule_def)
qed

theorem C1_select_is_first_and_follow_witness:
  "(\<exists>fi fo sel s.
     calculate_first {|ID|} {|S, E|} [(S, [E, ID]), (E, [])]
       (calculate_nullable {|ID|} {|S, E|} [(S, [E, ID]), (E, [])]) = Inr fi
   \<and> calculate_follow {|ID|} {|S, E|} [(S, [E, ID]), (E, [])]
       (calculate_nullable {|ID|} {|S, E|} [(S, [E, ID]), (E, [])]) fi = Inr fo
   \<and> calculate_select {|ID|} {|S, E|} [(S, [E, ID]), (E, [])]
       (calculate_nullable {|ID|} {|S, E|} [(S, [E, ID]), (E, [])]) fi fo = Inr sel
   \<and> sel (E, []) = Some s
   \<and> fset s = FIRST_seq fi (calculate_nullable {|ID|} {|S, E|} [(S, [E, ID]), (E, [])]) []
        \<union> (if set [] \<subseteq> fset (calculate_nullable {|ID|} {|S, E|} [(S, [E, ID]), (E, [])])
           then vals fo E else {}))
   \<and> (case grammar_select [(S, [E, ID]), (E, [])] of
         Inl e \<Rightarrow> None
       | Inr sel \<Rightarrow> Some (sel (S, [E, ID]), sel (E, []))) = Some (Some {|ID|}, Some {|ID|})"
proof -
  have f: "find_terminals_and_nonterminals [(S, [E, ID]), (E, [])] = ({|ID|}, {|S, E|})"
    by code_simp
  have m: "(E, []) \<in> set [(S, [E, ID]), (E, [])]" by simp
  have e: "(case grammar_select [(S, [E, ID]), (E, [])] of
         Inl e \<Rightarrow> None
       | Inr sel \<Rightarrow> Some (sel (S, [E, ID]), sel (E, []))) = Some (Some {|ID|}, Some {|ID|})"
    by code_simp
  from C1_select_is_first_and_follow[OF f m] e show ?thesis by blast
qed

subsection \<open>Claim C2\<close>

text \<open>
  Claim C2, as stated, lets \<open>is_LL1\<close> return False only when two rules that differ as
  \<open>(head, body)\<close> values conflict. A grammar that lists one rule twice has no two distinct
  rule values, and \<open>is_LL1\<close> returns False on it: the scan compares the rule at index 0
  with the rule at index 1.
\<close>

theorem C2_duplicate_rule_conflicts_with_itself:
  "is_LL1 [(S, [ID]), (S, [ID])] = Inr False
   \<and> \<not> (\<exists>r1\<in>set [(S, [ID]), (S, [ID])]. \<exists>r2\<in>set [(S, [ID]), (S, [ID])]. r1 \<noteq> r2)"
proof -
  have "is_LL1 [(S, [ID]), (S, [ID])] = Inr False" by code_simp
  then show ?thesis by simp
qed

text \<open>
  Claim C2, amended. On a nonempty grammar \<open>is_LL1\<close> returns False if and only if there
  are two indices \<open>i < j\<close> whose rules have the same head and intersecting SELECT sets
  (the two rules may be one \<open>(head, body)\<close> value listed twice), and True otherwise.
\<close>

theorem C2_is_LL1_scans_index_pairs:
  assumes "g \<noteq> []"
  shows "\<exists>sel. grammar_select g = Inr sel
         \<and> is_LL1 g = Inr (\<not> (\<exists>i j. i < j \<and> j < length g \<and> fst (g ! i) = fst (g ! j)
               \<and> select_set sel (g ! i) \<inter> select_set sel (g ! j) \<noteq> {}))"
proof -
  obtain ts nts where f: "find_terminals_and_nonterminals g = (ts, nts)"
    by (cases "find_terminals_and_nonterminals g")
  from pipeline_result[OF f assms] obtain fi fo sel
    where gs: "grammar_select g = Inr sel"
      and v: "\<forall>r\<in>set g. \<exists>s. sel r = Some s
               \<and> fset s = SELECT_rule (calculate_nullable ts nts g) fi fo r" by blast
  from v have "set g \<subseteq> dom sel" by auto
  from ll1_scan_result[OF this] gs show ?thesis by (simp add: is_LL1_def conflict_def)
qed

theorem C2_is_LL1_scans_index_pairs_witness:
  "\<exists>sel. grammar_select [(S, [E, ID]), (E, [])] = Inr sel
   \<and> is_LL1 [(S, [E, ID]), (E, [])]
       = Inr (\<not> (\<exists>i j. i < j \<and> j < length [(S, [E, ID]), (E, [])]
             \<and> fst ([(S, [E, ID]), (E, [])] ! i) = fst ([(S, [E, ID]), (E, [])] ! j)
             \<and> select_set sel ([(S, [E, ID]), (E, [])] ! i)
                 \<inter> select_set sel ([(S, [E, ID]), (E, [])] ! j) \<noteq> {}))"
proof -
  have n: "[(S, [E, ID]), (E, [])] \<noteq> []" by simp
  show ?thesis by (rule C2_is_LL1_scans_index_pairs[OF n])
qed

subsection \<open>Claim C3\<close>

text \<open>
  Claim C3. For every nonempty grammar, with the nullable set and the FIRST mapping
  computed for it, \<open>calculate_follow\<close> returns a mapping on the grammar's nonterminals,
  with sets of terminals (and the end marker) as values, that satisfies the FOLLOW
  constraints and lies below every family of sets that satisfies them: the least
  solution.
\<close>

theorem C3_follow_is_least_solution:
  assumes "g \<noteq> []" and "find_terminals_and_nonterminals g = (ts, nts)"
  shows "\<exists>fi fo.
           calculate_first ts nts g (calculate_nullable ts nts g) = Inr fi
         \<and> calculate_follow ts nts g (calculate_nullable ts nts g) fi = Inr fo
         \<and> dom fo = fset nts
         \<and> (\<forall>B. vals fo B \<subseteq> fset ts \<union> {EOF})
         \<and> follow_constraints g nts (calculate_nullable ts nts g) fi (vals fo)
         \<and> (\<forall>F. follow_constraints g nts (calculate_nullable ts nts g) fi F
                \<longrightarrow> (\<forall>B. vals fo B \<subseteq> F B))"
proof -
  from calculate_first_result[OF assms(2), of "calculate_nullable ts nts g"] obtain fi
    where fi: "calculate_first ts nts g (calculate_nullable ts nts g) = Inr fi"
      and dm: "dom fi = syms g" and tm: "\<forall>k. vals fi k \<subseteq> fset ts" by blast
  from dm have sub: "syms g \<subseteq> dom fi" by simp
  from calculate_follow_least_solution[OF assms(2,1) sub tm, of "calculate_nullable ts nts g"]
    fi show ?thesis by blast
qed

theorem C3_follow_is_least_solution_witness:
  "(\<exists>fi fo.
       calculate_first {|ID|} {|S, E|} [(S, [E, ID]), (E, [])]
         (calculate_nullable {|ID|} {|S, E|} [(S, [E, ID]), (E, [])]) = Inr fi
     \<and> calculate_follow {|ID|} {|S, E|} [(S, [E, ID]), (E, [])]
         (calculate_nullable {|ID|} {|S, E|} [(S, [E, ID]), (E, [])]) fi = Inr fo
     \<and> dom fo = fset {|S, E|}
     \<and> (\<forall>B. vals fo B \<subseteq> fset {|ID|} \<union> {EOF})
     \<and> follow_constraints [(S, [E, ID]), (E, [])] {|S, E|}
         (calculate_nullable {|ID|} {|S, E|} [(S, [E, ID]), (E, [])]) fi (vals fo)
     \<and> (\<forall>F. follow_constraints [(S, [E, ID]), (E, [])] {|S, E|}
              (calculate_nullable {|ID|} {|S, E|} [(S, [E, ID]), (E, [])]) fi F
            \<longrightarrow> (\<forall>B. vals fo B \<subseteq> F B)))
   \<and> (case calculate_first {|ID|} {|S, E|} [(S, [E, ID]), (E, [])]
              (calculate_nullable {|ID|} {|S, E|} [(S, [E, ID]), (E, [])]) of
         Inl e \<Rightarrow> None
       | Inr fi \<Rightarrow>
           (case calculate_follow {|ID|} {|S, E|} [(S, [E, ID]), (E, [])]
                   (calculate_nullable {|ID|} {|S, E|} [(S, [E, ID]), (E, [])]) fi of
              Inl e \<Rightarrow> None
            | Inr fo \<Rightarrow> Some (fo S, fo E)))
       = Some (Some {|EOF|}, Some {|ID|})"
proof -
  have f: "find_terminals_and_nonterminals [(S, [E, ID]), (E, [])] = ({|ID|}, {|S, E|})"
    by code_simp
  have n: "[(S, [E, ID]), (E, [])] \<noteq> []" by simp
  have e: "(case calculate_first {|ID|} {|S, E|} [(S, [E, ID]), (E, [])]
              (calculate_nullable {|ID|} {|S, E|} [(S, [E, ID]), (E, [])]) of
         Inl e \<Rightarrow> None
       | Inr fi \<Rightarrow>
           (case calculate_follow {|ID|} {|S, E|} [(S, [E, ID]), (E, [])]
                   (calculate_nullable {|ID|} {|S, E|} [(S, [E, ID]), (E, [])]) fi of
              Inl e \<Rightarrow> None
            | Inr fo \<Rightarrow> Some (fo S, fo E)))
       = Some (Some {|EOF|}, Some {|ID|})"
    by code_simp
  from C3_follow_is_least_solution[OF n f] e show ?thesis by blast
qed

subsection \<open>Claim C4\<close>

text \<open>
  Claim C4. \<open>calculate_nullable(G)\<close> returns the least set closed under the rules of G;
  it is a fixed point of the nullability pass (one more pass over all rules adds nothing
  and leaves \<open>changing\<close> false), and each of its members is the head of a rule.
\<close>

theorem C4_nullable_least_fixed_point:
  "nullable_closed g (fset (calculate_nullable ts nts g))
   \<and> (\<forall>M. nullable_closed g M \<longrightarrow> fset (calculate_nullable ts nts g) \<subseteq> M)
   \<and> nullable_pass g (calculate_nullable ts nts g, False)
       = (calculate_nullable ts nts g, False)
   \<and> fset (calculate_nullable ts nts g) \<subseteq> fst ` set g"
  using calculate_nullable_closed calculate_nullable_least calculate_nullable_heads
    nullable_loop_fixed by (simp add: calculate_nullable_def)

theorem C4_nullable_least_fixed_point_witness:
  "fset (calculate_nullable {|ID|} {|EP, E, T|} [(EP, []), (E, [EP]), (T, [ID])]) = {EP, E}
   \<and> nullable_pass [(EP, []), (E, [EP]), (T, [ID])] ({|EP, E|}, False) = ({|EP, E|}, False)"
proof -
  let ?g = "[(EP, []), (E, [EP]), (T, [ID])]"
  let ?N = "calculate_nullable {|ID|} {|EP, E, T|} ?g"
  note c4 = C4_nullable_least_fixed_point[of ?g "{|ID|}" "{|EP, E, T|}"]
  have ne: "ID \<noteq> EP" "ID \<noteq> E" by (simp_all add: symbol_defs)
  from c4 have "nullable_closed ?g (fset ?N)" by simp
  then have "EP \<in> fset ?N \<and> E \<in> fset ?N" by (simp add: nullable_closed_def)
  moreover have "nullable_closed ?g {EP, E}" using ne by (simp add: nullable_closed_def)
  with c4 have "fset ?N \<subseteq> {EP, E}" by blast
  ultimately have eq: "fset ?N = {EP, E}" by blast
  then have "?N = {|EP, E|}" by (metis fset_simps(1,2) fset_inject)
  with c4 eq show ?thesis by simp
qed

subsection \<open>Claim C5\<close>

text \<open>
  Claim C5 says that every analyzer operation returns normally on every finite rule
  sequence, the empty one included. On the empty sequence \<open>calculate_follow\<close> reads
  \<open>grammar[0][0]\<close> and raises IndexError, and so does \<open>is_LL1\<close>, which calls it.
\<close>

theorem C5_empty_grammar_raises:
  "is_LL1 [] = Inl IndexError
   \<and> calculate_follow {||} {||} [] {||} Map.empty = Inl IndexError"
proof -
  have "is_LL1 [] = Inl IndexError" by code_simp
  then show ?thesis by (simp add: calculate_follow_def)
qed

text \<open>
  Claim C5, amended. On every nonempty finite rule sequence, bodies that mention symbols
  which are no rule's head included, \<open>calculate_nullable\<close>, \<open>calculate_first\<close>,
  \<open>calculate_follow\<close>, \<open>calculate_select\<close> and \<open>is_LL1\<close> all terminate and raise no
  exception (\<open>calculate_nullable\<close> is a total function of the model: its loop has a
  termination proof for every grammar).
\<close>

theorem C5_analyzer_returns_on_nonempty_grammar:
  assumes "g \<noteq> []" and "find_terminals_and_nonterminals g = (ts, nts)"
  shows "\<exists>fi fo sel b.
           calculate_first ts nts g (calculate_nullable ts nts g) = Inr fi
         \<and> calculate_follow ts nts g (calculate_nullable ts nts g) fi = Inr fo
         \<and> calculate_select ts nts g (calculate_nullable ts nts g) fi fo = Inr sel
         \<and> is_LL1 g = Inr b"
proof -
  from pipeline_result[OF assms(2,1)] obtain fi fo sel
    where fi: "calculate_first ts nts g (calculate_nullable ts nts g) = Inr fi"
      and fo: "calculate_follow ts nts g (calculate_nullable ts nts g) fi = Inr fo"
      and se: "calculate_select ts nts g (calculate_nullable ts nts g) fi fo = Inr sel"
      and gs: "grammar_select g = Inr sel"
      and v: "\<forall>r\<in>set g. \<exists>s. sel r = Some s
               \<and> fset s = SELECT_rule (calculate_nullable ts nts g) fi fo r" by blast
  from v have "set g \<subseteq> dom sel" by auto
  from ll1_scan_result[OF this] gs have "\<exists>b. is_LL1 g = Inr b" by (simp add: is_LL1_def)
  with fi fo se show ?thesis by blast
qed

theorem C5_analyzer_returns_on_nonempty_grammar_witness:
  "\<exists>fi fo sel b.
     calculate_first {|ID|} {|S, E|} [(S, [E, ID]), (E, [])]
       (calculate_nullable {|ID|} {|S, E|} [(S, [E, ID]), (E, [])]) = Inr fi
   \<and> calculate_follow {|ID|} {|S, E|} [(S, [E, ID]), (E, [])]
       (calculate_nullable {|ID|} {|S, E|} [(S, [E, ID]), (E, [])]) fi = Inr fo
   \<and> calculate_select {|ID|} {|S, E|} [(S, [E, ID]), (E, [])]
       (calculate_nullable {|ID|} {|S, E|} [(S, [E, ID]), (E, [])]) fi fo = Inr sel
   \<and> is_LL1 [(S, [E, ID]), (E, [])] = Inr b"
proof -
  have f: "find_terminals_and_nonterminals [(S, [E, ID]), (E, [])] = ({|ID|}, {|S, E|})"
    by code_simp
  have n: "[(S, [E, ID]), (E, [])] \<noteq> []" by simp
  show ?thesis by (rule C5_analyzer_returns_on_nonempty_grammar[OF n f])
qed

subsection \<open>Claim C6\<close>

text \<open>
  Claim C6. \<open>is_LL1(grammar_json_4a)\<close>, whose grammar has the left-recursive rule
  \<open>members -> members COMMA members\<close> beside \<open>members -> keyvalue\<close>, returns False, and
  \<open>is_LL1(grammar_json_4b)\<close>, the right-recursive rewriting with \<open>members_right\<close>, returns
  True.
\<close>

theorem C6_json_4a_not_ll1_4b_ll1:
  "is_LL1 grammar_json_4a = Inr False \<and> is_LL1 grammar_json_4b = Inr True"
  by code_simp

subsection \<open>Claim C7\<close>

text \<open>
  Claim C7 says that each branch of a \<open>parse_<nonterminal>\<close> method accepts exactly the
  SELECT set of its rule of \<open>grammar_json_6\<close>. The analyzer gives the rules
  \<open>members_arr -> keyvalue members_right_arr\<close> and \<open>obj_right_arr -> members_arr RS\<close> the
  SELECT set \<open>{STRING}\<close>; the parser takes their branches on \<open>INT\<close> too (and on \<open>LB\<close>, \<open>LS\<close>),
  and parses a value where the grammar has \<open>keyvalue\<close>.
\<close>

theorem C7_parser_accepts_INT_where_select_is_STRING:
  "(case grammar_select grammar_json_6 of
      Inl e \<Rightarrow> None
    | Inr select \<Rightarrow>
        Some (select (members_arr, [keyvalue, members_right_arr]),
              select (obj_right_arr, [members_arr, RS])))
     = Some (Some {|STRING|}, Some {|STRING|})
   \<and> JsonParser_parse 20 [(LS, ''[''), (INT_sym, ''1''), (RS, '']'')]
     = Some (Inr (Node obj [Leaf ''['', Node obj_right_arr
          [Node members_arr [Node value_nt [Leaf ''1''], Node members_right_arr []],
           Leaf '']'']]))"
  by code_simp

subsection \<open>Claim C8\<close>

text \<open>
  Claim C8 says that constructing \<open>Parser(tokens)\<close> succeeds for every token list, the
  empty list included. On the empty list the constructor's call of \<open>advance\<close> reads
  \<open>tokens[-1]\<close> and raises IndexError.
\<close>

theorem C8_empty_token_list_raises: "Parser_init [] = Inl IndexError"
  by (simp add: Parser_init_def advance_def py_index_def)

subsection \<open>Claim C9\<close>

text \<open>
  Claim C9, amended. Whenever \<open>JsonParser(tokens).parse()\<close> returns a tree (with whatever
  fuel the run needs), the left-to-right sequence of the tree's leaf values is the
  sequence of the attached values of the tokens that come before the first token tagged
  \<open>EOF\<close>: of all the tokens when none is tagged \<open>EOF\<close>. The call does return, a tree or
  an exception, on every token list: fuel \<open>4 * len(tokens) + 1\<close> is enough
  (lemma \<open>JsonParser_parse_returns\<close>).
\<close>

theorem C9_leaves_are_values_before_EOF:
  assumes "JsonParser_parse n toks = Some (Inr tr)"
  shows "leaves tr = map snd (takeWhile (\<lambda>tk. fst tk \<noteq> EOF) toks)"
proof -
  from assms obtain p0 p2 where i: "Parser_init toks = Inr p0"
    and pr: "parse n p0 = Some (Inr (tr, p2))"
    by (auto simp: JsonParser_parse_def split: sum.splits option.splits prod.splits)
  from Parser_init_Inr[OF i] have tk0: "tokens p0 = toks" and pos0: "pos p0 = 0" by auto
  have w0: "wf_parser p0" by (rule Parser_init_wf[OF i])
  from bindP_Inr[OF pr[unfolded parse_def]] obtain v p1
    where pv: "parse_obj n p0 = Some (Inr (v, p1))"
      and b: "bindP (run (match p1 EOF)) (\<lambda>_ q. Some (Inr (v, q))) = Some (Inr (tr, p2))"
    by blast
  from bindP_Inr[OF b] have "v = tr" by auto
  with pv have po: "parse_obj n p0 = Some (Inr (tr, p1))" by simp
  from sound_all[of n] w0 po have sp: "span p0 (leaves tr) p1" by (simp add: sound_def)
  from b have "fst (match p1 EOF) \<noteq> Inl SyntaxError"
    by (auto simp: bindP_def run_def split: prod.splits sum.splits)
  then have t1: "t p1 = EOF" by (auto simp: match_def split: if_splits)
  from sp tk0 pos0 obtain zs where w1: "wf_parser p1" and tk1: "tokens p1 = toks"
    and zs: "take (nat (pos p1)) toks = zs" "leaves tr = map snd zs" "EOF \<notin> fst ` set zs"
    by (auto simp: span_def)
  from w1 t1 tk1 have "length toks \<le> nat (pos p1) \<or> fst (toks ! nat (pos p1)) = EOF"
    by (auto simp: wf_parser_def split: if_splits)
  moreover from zs have "\<forall>x\<in>set (take (nat (pos p1)) toks). fst x \<noteq> EOF" by force
  ultimately have "takeWhile (\<lambda>tk. fst tk \<noteq> EOF) toks = take (nat (pos p1)) toks"
    by (intro takeWhile_take) auto
  with zs show ?thesis by simp
qed

theorem C9_leaves_are_values_before_EOF_witness:
  "JsonParser_parse 20
     [(LB, ''{''), (STRING, ''k''), (COLON, '':''), (INT_sym, ''1''), (RB, ''}'')]
   = Some (Inr (Node obj [Leaf ''{'', Node obj_right_set
        [Node members_set [Node keyvalue [Leaf ''k'', Leaf '':'', Node value_nt [Leaf ''1'']],
                           Node members_right_set []], Leaf ''}'']]))
   \<and> leaves (Node obj [Leaf ''{'', Node obj_right_set
        [Node members_set [Node keyvalue [Leaf ''k'', Leaf '':'', Node value_nt [Leaf ''1'']],
                           Node members_right_set []], Leaf ''}'']])
     = [''{'', ''k'', '':'', ''1'', ''}'']"
proof -
  have e: "JsonParser_parse 20
     [(LB, ''{''), (STRING, ''k''), (COLON, '':''), (INT_sym, ''1''), (RB, ''}'')]
   = Some (Inr (Node obj [Leaf ''{'', Node obj_right_set
        [Node members_set [Node keyvalue [Leaf ''k'', Leaf '':'', Node value_nt [Leaf ''1'']],
                           Node members_right_set []], Leaf ''}'']]))"
    by code_simp
  from C9_leaves_are_values_before_EOF[OF e] e show ?thesis by (simp add: symbol_defs)
qed

text \<open>
  Claim C9, as stated, speaks of every token list. On a list that holds a token tagged
  \<open>EOF\<close> before other tokens, \<open>parse\<close> returns a tree for the part before it, and the
  values of the tokens after it are no leaves of the tree.
\<close>

theorem C9_tokens_after_EOF_token_lost:
  "JsonParser_parse 20 [(LB, ''{''), (RB, ''}''), (EOF, ''x''), (INT_sym, ''5'')]
     = Some (Inr (Node obj [Leaf ''{'', Node obj_right_set [Leaf ''}'']]))
   \<and> leaves (Node obj [Leaf ''{'', Node obj_right_set [Leaf ''}'']]) = [''{'', ''}'']
   \<and> map snd [(LB, ''{''), (RB, ''}''), (EOF, ''x''), (INT_sym, ''5'')]
       = [''{'', ''}'', ''x'', ''5'']"
  by code_simp

subsection \<open>Claim C10\<close>

text \<open>
  Claim C10, as stated, has \<open>match\<close> return the attached value of the matched token
  whenever it succeeds. At the end of the input \<open>match(EOF)\<close> succeeds on a reachable
  state, no token stands at the position, and the value returned is the marker \<open>EOF\<close>,
  which no token of the list carries.
\<close>

theorem C10_match_returns_marker_at_end:
  "Parser_init [(LB, ''{'')] = Inr \<lparr>tokens = [(LB, ''{'')], pos = 0, t = LB\<rparr>
   \<and> match \<lparr>tokens = [(LB, ''{'')], pos = 0, t = LB\<rparr> LB
       = (Inr ''{'', \<lparr>tokens = [(LB, ''{'')], pos = 1, t = EOF\<rparr>)
   \<and> match \<lparr>tokens = [(LB, ''{'')], pos = 1, t = EOF\<rparr> EOF
       = (Inr EOF, \<lparr>tokens = [(LB, ''{'')], pos = 2, t = EOF\<rparr>)
   \<and> \<not> (1 < int (length [(LB, ''{'')]))
   \<and> EOF \<notin> snd ` set [(LB, ''{'')]"
  by (simp add: Parser_init_def match_def advance_def py_index_def symbol_defs)

text \<open>
  Claim C10, amended. On every state reachable by construction and successful operations,
  \<open>match(terminal)\<close> raises SyntaxError exactly when the lookahead \<open>t\<close> differs from
  \<open>terminal\<close>, and then leaves the state unchanged; otherwise it advances \<open>pos\<close> by one
  and returns the value attached to the token at the old position when that position is
  inside the token list, and the marker \<open>EOF\<close> when it is at or past the end.
\<close>

theorem C10_match:
  assumes "reachable p"
  shows "(t p \<noteq> terminal \<longrightarrow> match p terminal = (Inl SyntaxError, p))
    \<and> (t p = terminal \<longrightarrow>
         (\<exists>p'. match p terminal =
                  (Inr (if pos p < int (length (tokens p))
                        then snd (tokens p ! nat (pos p)) else EOF), p')
              \<and> pos p' = pos p + 1 \<and> tokens p' = tokens p))"
proof -
  from assms have "0 \<le> pos p" using reachable_wf by (simp add: wf_parser_def)
  then show ?thesis by (simp add: match_def advance_nonneg)
qed

theorem C10_match_witness:
  "reachable \<lparr>tokens = [(LB, ''{'')], pos = 0, t = LB\<rparr>
   \<and> match \<lparr>tokens = [(LB, ''{'')], pos = 0, t = LB\<rparr> RB
       = (Inl SyntaxError, \<lparr>tokens = [(LB, ''{'')], pos = 0, t = LB\<rparr>)
   \<and> (\<exists>p'. match \<lparr>tokens = [(LB, ''{'')], pos = 0, t = LB\<rparr> LB = (Inr ''{'', p')
         \<and> pos p' = 1 \<and> tokens p' = [(LB, ''{'')])"
proof -
  have "Parser_init [(LB, ''{'')] = Inr \<lparr>tokens = [(LB, ''{'')], pos = 0, t = LB\<rparr>"
    by (simp add: Parser_init_def advance_def py_index_def)
  then have r: "reachable \<lparr>tokens = [(LB, ''{'')], pos = 0, t = LB\<rparr>"
    by (rule reachable.init)
  have ne: "LB \<noteq> RB" by (simp add: symbol_defs)
  from C10_match[OF r, of RB] C10_match[OF r, of LB] r ne show ?thesis by simp
qed

end
